theory Spec2Isabelle
  imports Main "HOL-Library.AList"
begin

section \<open>Python values used by the address book\<close>

text \<open>
  The program is \<^verbatim>\<open>src/main.py\<close>. A Python \<^verbatim>\<open>str\<close> is modelled as a HOL
  \<open>string\<close>, one \<open>char\<close> per code point, so the model covers the strings whose code
  points lie below 256 (Latin-1). Python integers are \<open>int\<close>. An exception is a value
  of \<open>error\<close>, carrying the exception class and its message; a fallible operation
  returns \<open>error + 'a\<close> with \<open>Inl\<close> for the raised exception.
\<close>

datatype error =
    ValueError string
  | KeyError string
  | IndexError string
  | OverflowError string

text \<open>
  The decimal digit characters (Unicode category Nd, the class \<^verbatim>\<open>\d\<close> of a regular
  expression) below code point 256 are the ASCII digits \<^verbatim>\<open>[0-9]\<close>; \<open>cls_19\<close> is the
  class \<^verbatim>\<open>[1-9]\<close>.

  \<^verbatim>\<open>str.isdigit\<close>: true when the string is non-empty and every character has the
  Unicode property Numeric_Type=Digit or Decimal. Below code point 256 these are the
  ASCII digits and the three superscript digits U+00B2, U+00B3, U+00B9.
\<close>

definition cls_09 :: string where
  "cls_09 = ''0123456789''"

definition cls_19 :: string where
  "cls_19 = ''123456789''"

definition ascii_digit :: "char \<Rightarrow> bool" where
  "ascii_digit c = (c \<in> set cls_09)"

definition isdigit_char :: "char \<Rightarrow> bool" where
  "isdigit_char c = (ascii_digit c \<or> c = CHR 0xB2 \<or> c = CHR 0xB3 \<or> c = CHR 0xB9)"

definition isdigit :: "string \<Rightarrow> bool" where
  "isdigit s = (s \<noteq> [] \<and> list_all isdigit_char s)"

text \<open>
  \<^verbatim>\<open>int(s)\<close> on the text of a regular-expression group of \<^verbatim>\<open>strptime\<close>: leading
  blanks are stripped, the rest is read as a decimal numeral.
\<close>

definition digit_val :: "char \<Rightarrow> int" where
  "digit_val c = int (of_char c) - 48"

definition py_int :: "string \<Rightarrow> int" where
  "py_int s = foldl (\<lambda>a c. 10 * a + digit_val c) 0 (dropWhile (\<lambda>c. c = CHR '' '') s)"

section \<open>The \<^verbatim>\<open>datetime.date\<close> operations the program calls\<close>

text \<open>
  The proleptic Gregorian calendar of Python's \<^verbatim>\<open>datetime\<close> module, with its
  constants and helper functions under their own names (a leading underscore dropped).
\<close>

record date =
  year :: int
  month :: int
  day :: int

definition MINYEAR :: int where "MINYEAR = 1"
definition MAXYEAR :: int where "MAXYEAR = 9999"
definition MAXORDINAL :: int where "MAXORDINAL = 3652059"

definition DAYS_IN_MONTH :: "int list" where
  "DAYS_IN_MONTH = [-1, 31, 28, 31, 30, 31, 30, 31, 31, 30, 31, 30, 31]"

definition DAYS_BEFORE_MONTH :: "int list" where
  "DAYS_BEFORE_MONTH = [-1, 0, 31, 59, 90, 120, 151, 181, 212, 243, 273, 304, 334]"

definition is_leap :: "int \<Rightarrow> bool" where
  "is_leap y = (y mod 4 = 0 \<and> (y mod 100 \<noteq> 0 \<or> y mod 400 = 0))"

definition days_before_year :: "int \<Rightarrow> int" where
  "days_before_year y0 = (let y = y0 - 1 in y * 365 + y div 4 - y div 100 + y div 400)"

definition days_in_month :: "int \<Rightarrow> int \<Rightarrow> int" where
  "days_in_month y m = (if m = 2 \<and> is_leap y then 29 else DAYS_IN_MONTH ! nat m)"

definition days_before_month :: "int \<Rightarrow> int \<Rightarrow> int" where
  "days_before_month y m = DAYS_BEFORE_MONTH ! nat m + (if m > 2 \<and> is_leap y then 1 else 0)"

definition ymd2ord :: "int \<Rightarrow> int \<Rightarrow> int \<Rightarrow> int" where
  "ymd2ord y m d = days_before_year y + days_before_month y m + d"

text \<open>\<^verbatim>\<open>_ord2ymd\<close>: the date of an ordinal, by 400-, 100-, 4- and 1-year cycles.\<close>

definition ord2ymd :: "int \<Rightarrow> date" where
  "ord2ymd n0 =
    (let n = n0 - 1;
         n400 = n div 146097; n = n mod 146097;
         n100 = n div 36524; n = n mod 36524;
         n4 = n div 1461; n = n mod 1461;
         n1 = n div 365; n = n mod 365;
         y = n400 * 400 + 1 + n100 * 100 + n4 * 4 + n1
     in if n1 = 4 \<or> n100 = 4 then \<lparr>year = y - 1, month = 12, day = 31\<rparr>
        else
          let leapyear = (n1 = 3 \<and> (n4 \<noteq> 24 \<or> n100 = 3));
              m = (n + 50) div 32;
              preceding = DAYS_BEFORE_MONTH ! nat m + (if m > 2 \<and> leapyear then 1 else 0)
          in if preceding > n
             then let m' = m - 1;
                      preceding' = preceding
                        - (DAYS_IN_MONTH ! nat m' + (if m' = 2 \<and> leapyear then 1 else 0))
                  in \<lparr>year = y, month = m', day = n - preceding' + 1\<rparr>
             else \<lparr>year = y, month = m, day = n - preceding + 1\<rparr>)"

text \<open>
  The constructor \<^verbatim>\<open>date(year, month, day)\<close> checks its fields and raises
  \<^verbatim>\<open>ValueError\<close> otherwise.
\<close>

definition check_date_fields :: "int \<Rightarrow> int \<Rightarrow> int \<Rightarrow> bool" where
  "check_date_fields y m d =
    (MINYEAR \<le> y \<and> y \<le> MAXYEAR \<and> 1 \<le> m \<and> m \<le> 12 \<and> 1 \<le> d \<and> d \<le> days_in_month y m)"

definition new_date :: "int \<Rightarrow> int \<Rightarrow> int \<Rightarrow> error + date" where
  "new_date y m d =
    (if \<not> (MINYEAR \<le> y \<and> y \<le> MAXYEAR) then Inl (ValueError ''year is out of range'')
     else if \<not> (1 \<le> m \<and> m \<le> 12) then Inl (ValueError ''month must be in 1..12'')
     else if \<not> (1 \<le> d \<and> d \<le> days_in_month y m)
       then Inl (ValueError ''day is out of range for month'')
     else Inr \<lparr>year = y, month = m, day = d\<rparr>)"

definition valid_date :: "date \<Rightarrow> bool" where
  "valid_date t = check_date_fields (year t) (month t) (day t)"

text \<open>\<^verbatim>\<open>d.replace(year=y)\<close> builds a new date from the fields, checks included.\<close>

definition replace_year :: "date \<Rightarrow> int \<Rightarrow> error + date" where
  "replace_year t y = new_date y (month t) (day t)"

definition toordinal :: "date \<Rightarrow> int" where
  "toordinal t = ymd2ord (year t) (month t) (day t)"

definition fromordinal :: "int \<Rightarrow> date" where
  "fromordinal n = ord2ymd n"

text \<open>\<^verbatim>\<open>d.weekday()\<close>: Monday is 0, Sunday is 6.\<close>

definition weekday :: "date \<Rightarrow> int" where
  "weekday t = (toordinal t + 6) mod 7"

text \<open>\<^verbatim>\<open>a < b\<close> on dates compares (year, month, day) lexicographically.\<close>

definition date_less :: "date \<Rightarrow> date \<Rightarrow> bool" where
  "date_less a b =
    (year a < year b \<or> (year a = year b \<and> (month a < month b \<or> (month a = month b \<and> day a < day b))))"

text \<open>\<^verbatim>\<open>(a - b).days\<close>.\<close>

definition days_between :: "date \<Rightarrow> date \<Rightarrow> int" where
  "days_between a b = toordinal a - toordinal b"

text \<open>\<^verbatim>\<open>d + timedelta(days=n)\<close>; out of the range of dates it raises \<^verbatim>\<open>OverflowError\<close>.\<close>

definition date_add :: "date \<Rightarrow> int \<Rightarrow> error + date" where
  "date_add t n =
    (let ord = toordinal t + n
     in if 0 < ord \<and> ord \<le> MAXORDINAL then Inr (fromordinal ord)
        else Inl (OverflowError ''date value out of range''))"

subsection \<open>\<^verbatim>\<open>strftime("%d.%m.%Y")\<close>\<close>

text \<open>
  Day and month are written with two digits and the year with four, zero padded; the
  fields of a date are in range for these widths.
\<close>

definition digit_char :: "int \<Rightarrow> char" where
  "digit_char n = ''0123456789'' ! nat (n mod 10)"

definition fmt2 :: "int \<Rightarrow> string" where
  "fmt2 n = [digit_char (n div 10), digit_char n]"

definition fmt4 :: "int \<Rightarrow> string" where
  "fmt4 n = [digit_char (n div 1000), digit_char (n div 100), digit_char (n div 10), digit_char n]"

definition strftime_dmY :: "date \<Rightarrow> string" where
  "strftime_dmY t = fmt2 (day t) @ ''.'' @ fmt2 (month t) @ ''.'' @ fmt4 (year t)"

subsection \<open>\<^verbatim>\<open>datetime.strptime(s, "%d.%m.%Y")\<close>\<close>

text \<open>
  \<^verbatim>\<open>strptime\<close> turns the format into a regular expression, one named group per
  directive, and matches it at the start of the input:
  \<^verbatim>\<open>%d\<close> is \<^verbatim>\<open>3[0-1]|[1-2]\d|0[1-9]|[1-9]| [1-9]\<close>,
  \<^verbatim>\<open>%m\<close> is \<^verbatim>\<open>1[0-2]|0[1-9]|[1-9]\<close> and \<^verbatim>\<open>%Y\<close> is \<^verbatim>\<open>\d\d\d\d\<close>.
  A character class is the string of its members, an alternative a list of classes, a
  group a list of alternatives tried in order. Matching returns every way to match, in
  the order in which a backtracking matcher finds them; its first element is the match
  \<^verbatim>\<open>re.match\<close> reports.
\<close>

fun match_seq :: "string list \<Rightarrow> string \<Rightarrow> (string \<times> string) option" where
  "match_seq [] s = Some ([], s)"
| "match_seq (cls # rest) [] = None"
| "match_seq (cls # rest) (c # cs) =
    (if c \<in> set cls
     then (case match_seq rest cs of None \<Rightarrow> None | Some (t, r) \<Rightarrow> Some (c # t, r))
     else None)"

definition match_group :: "string list list \<Rightarrow> string \<Rightarrow> (string \<times> string) list" where
  "match_group alts s = List.map_filter (\<lambda>alt. match_seq alt s) alts"

definition re_d :: "string list list" where
  "re_d = [[''3'', ''01''], [''12'', cls_09], [''0'', cls_19], [cls_19], ['' '', cls_19]]"

definition re_m :: "string list list" where
  "re_m = [[''1'', ''012''], [''0'', cls_19], [cls_19]]"

definition re_Y :: "string list list" where
  "re_Y = [[cls_09, cls_09, cls_09, cls_09]]"

definition re_dot :: "string list list" where
  "re_dot = [[''.'']]"

definition format_regex_match :: "string \<Rightarrow> (string \<times> string \<times> string \<times> string) list" where
  "format_regex_match s =
    [(d, m, y, r5).
       (d, r1) \<leftarrow> match_group re_d s,
       (p1, r2) \<leftarrow> match_group re_dot r1,
       (m, r3) \<leftarrow> match_group re_m r2,
       (p2, r4) \<leftarrow> match_group re_dot r3,
       (y, r5) \<leftarrow> match_group re_Y r4]"

text \<open>
  No match, input left over after the match, and fields that are no date all raise
  \<^verbatim>\<open>ValueError\<close>.
\<close>

definition strptime_dmY :: "string \<Rightarrow> error + date" where
  "strptime_dmY s =
    (case format_regex_match s of
       [] \<Rightarrow> Inl (ValueError ''time data does not match format'')
     | (d, m, y, r) # _ \<Rightarrow>
         if r \<noteq> [] then Inl (ValueError ''unconverted data remains'')
         else new_date (py_int y) (py_int m) (py_int d))"

section \<open>Fields\<close>

text \<open>
  A \<^verbatim>\<open>Field\<close> wraps one value; \<^verbatim>\<open>Phone\<close> and \<^verbatim>\<open>Birthday\<close> validate it in
  their constructors. A field object is modelled by the string it holds.
\<close>

definition Phone :: "string \<Rightarrow> error + string" where
  "Phone v =
    (if \<not> (isdigit v \<and> length v = 10)
     then Inl (ValueError ''Phone number must contain exactly 10 digits.'')
     else Inr v)"

definition Birthday :: "string \<Rightarrow> error + string" where
  "Birthday v =
    (case strptime_dmY v of
       Inr _ \<Rightarrow> Inr v
     | Inl (ValueError _) \<Rightarrow> Inl (ValueError ''Invalid date format. Use DD.MM.YYYY'')
     | Inl e \<Rightarrow> Inl e)"

section \<open>Records\<close>

text \<open>
  A \<^verbatim>\<open>Record\<close> object holds a name, the list of its phones and an optional
  birthday. A method that mutates the object takes the record and returns what the
  call returns or raises together with the record as the call leaves it.
\<close>

record Record =
  name :: string
  phones :: "string list"
  birthday :: "string option"

definition Record_init :: "string \<Rightarrow> Record" where
  "Record_init n = \<lparr>name = n, phones = [], birthday = None\<rparr>"

definition add_phone :: "string \<Rightarrow> Record \<Rightarrow> (error + unit) \<times> Record" where
  "add_phone phone r =
    (case Phone phone of
       Inl e \<Rightarrow> (Inl e, r)
     | Inr p \<Rightarrow> (Inr (), r\<lparr>phones := phones r @ [p]\<rparr>))"

text \<open>
  \<^verbatim>\<open>edit_phone\<close> walks the phones by index; at the first one equal to
  \<^verbatim>\<open>old_phone\<close> it builds \<^verbatim>\<open>Phone(new_phone)\<close> and only then assigns it.
\<close>

function edit_phone_from :: "nat \<Rightarrow> string \<Rightarrow> string \<Rightarrow> Record \<Rightarrow> (error + unit) \<times> Record" where
  "edit_phone_from i old_phone new_phone r =
    (if i < length (phones r) then
       (if phones r ! i = old_phone then
          (case Phone new_phone of
             Inl e \<Rightarrow> (Inl e, r)
           | Inr p \<Rightarrow> (Inr (), r\<lparr>phones := (phones r)[i := p]\<rparr>))
        else edit_phone_from (i + 1) old_phone new_phone r)
     else (Inl (ValueError ''Old phone not found.''), r))"
  by pat_completeness auto
termination
  by (relation "measure (\<lambda>(i, old_phone, new_phone, r). length (phones r) - i)") auto

definition edit_phone :: "string \<Rightarrow> string \<Rightarrow> Record \<Rightarrow> (error + unit) \<times> Record" where
  "edit_phone old_phone new_phone r = edit_phone_from 0 old_phone new_phone r"

text \<open>
  \<^verbatim>\<open>add_birthday\<close>: the right-hand side \<^verbatim>\<open>Birthday(birthday_str)\<close> is evaluated
  first; the attribute is assigned when it returns.
\<close>

definition add_birthday :: "string \<Rightarrow> Record \<Rightarrow> (error + unit) \<times> Record" where
  "add_birthday birthday_str r =
    (case Birthday birthday_str of
       Inl e \<Rightarrow> (Inl e, r)
     | Inr b \<Rightarrow> (Inr (), r\<lparr>birthday := Some b\<rparr>))"

section \<open>The address book\<close>

text \<open>
  \<^verbatim>\<open>AddressBook\<close> is a \<^verbatim>\<open>UserDict\<close>: a dictionary from names to records that
  iterates in insertion order. It is an association list: assigning to a key that is
  present keeps its place, a new key goes to the end, deleting keeps the order of the
  rest. The book holds the record objects, so a method call on a record found in the
  book is written back under its key.
\<close>

type_synonym AddressBook = "(string \<times> Record) list"

definition add_record :: "Record \<Rightarrow> AddressBook \<Rightarrow> AddressBook" where
  "add_record record book = AList.update (name record) record book"

definition find_record :: "string \<Rightarrow> AddressBook \<Rightarrow> Record option" where
  "find_record n book = map_of book n"

definition delete :: "string \<Rightarrow> AddressBook \<Rightarrow> (error + unit) \<times> AddressBook" where
  "delete n book =
    (if n \<in> set (map fst book) then (Inr (), AList.delete n book)
     else (Inl (KeyError ''Contact not found.''), book))"

subsection \<open>\<^verbatim>\<open>get_upcoming_birthdays\<close>\<close>

text \<open>
  \<^verbatim>\<open>date.today()\<close> is the argument \<open>today\<close>. The body of the loop is split at the
  names of its variables: \<open>bday_this_year\<close> (the stored string parsed, moved to this
  year, and to the next when already past), \<open>congrat_date\<close> (the move off a weekend)
  and \<open>upcoming_item\<close> (what one record appends, if anything). An exception in the
  body of the loop ends the call; the list built so far is lost.
\<close>

definition bday_this_year :: "date \<Rightarrow> string \<Rightarrow> error + date" where
  "bday_this_year today v =
    (case strptime_dmY v of
       Inl e \<Rightarrow> Inl e
     | Inr bday_date \<Rightarrow>
         (case replace_year bday_date (year today) of
            Inl e \<Rightarrow> Inl e
          | Inr this \<Rightarrow>
              if date_less this today then replace_year this (year today + 1)
              else Inr this))"

definition congrat_date :: "date \<Rightarrow> error + date" where
  "congrat_date b =
    (if weekday b = 5 then date_add b 2
     else if weekday b = 6 then date_add b 1
     else Inr b)"

definition upcoming_item :: "date \<Rightarrow> int \<Rightarrow> Record \<Rightarrow> error + (string \<times> string) option" where
  "upcoming_item today days record =
    (case birthday record of
       None \<Rightarrow> Inr None
     | Some v \<Rightarrow>
         (case bday_this_year today v of
            Inl e \<Rightarrow> Inl e
          | Inr b \<Rightarrow>
              let delta_days = days_between b today
              in if 0 \<le> delta_days \<and> delta_days \<le> days
                 then (case congrat_date b of
                         Inl e \<Rightarrow> Inl e
                       | Inr c \<Rightarrow> Inr (Some (name record, strftime_dmY c)))
                 else Inr None))"

fun upcoming_loop ::
  "date \<Rightarrow> int \<Rightarrow> Record list \<Rightarrow> (string \<times> string) list \<Rightarrow> error + (string \<times> string) list" where
  "upcoming_loop today days [] upcoming = Inr upcoming"
| "upcoming_loop today days (record # rest) upcoming =
    (case upcoming_item today days record of
       Inl e \<Rightarrow> Inl e
     | Inr None \<Rightarrow> upcoming_loop today days rest upcoming
     | Inr (Some item) \<Rightarrow> upcoming_loop today days rest (upcoming @ [item]))"

text \<open>The parameter \<^verbatim>\<open>days: int = 7\<close>: \<open>None\<close> is the call without the argument.\<close>

definition window_days :: "int option \<Rightarrow> int" where
  "window_days days_arg = (case days_arg of None \<Rightarrow> 7 | Some n \<Rightarrow> n)"

definition get_upcoming_birthdays ::
  "date \<Rightarrow> AddressBook \<Rightarrow> int option \<Rightarrow> error + (string \<times> string) list" where
  "get_upcoming_birthdays today book days_arg =
    (let days = window_days days_arg
     in upcoming_loop today days (map snd book) [])"

section \<open>Command handlers\<close>

text \<open>
  The decorator \<^verbatim>\<open>input_error\<close> turns \<^verbatim>\<open>IndexError\<close>, \<^verbatim>\<open>KeyError\<close> and
  \<^verbatim>\<open>ValueError\<close> into the string the handler returns; any other exception passes
  through. \<^verbatim>\<open>str\<close> of a \<^verbatim>\<open>KeyError\<close> is the \<^verbatim>\<open>repr\<close> of its message, which for
  a message without quotes and backslashes is the message in single quotes.
\<close>

definition input_error :: "error + string \<Rightarrow> error + string" where
  "input_error res =
    (case res of
       Inr s \<Rightarrow> Inr s
     | Inl (IndexError _) \<Rightarrow> Inr ''Not enough arguments.''
     | Inl (KeyError m) \<Rightarrow> Inr ([CHR 0x27] @ m @ [CHR 0x27])
     | Inl (ValueError m) \<Rightarrow> Inr m
     | Inl e \<Rightarrow> Inl e)"

text \<open>
  The body of \<^verbatim>\<open>add_contact\<close>, and the handler as decorated. The variable
  \<^verbatim>\<open>record\<close> and the book hold the same object, so \<^verbatim>\<open>record.add_phone(phone)\<close>
  changes the record in the entry of the book that holds it: \<open>AList.map_entry\<close> rewrites
  the entry under the name and adds none. The only insertion is \<^verbatim>\<open>book.add_record\<close>.
\<close>

definition add_contact_body :: "string list \<Rightarrow> AddressBook \<Rightarrow> (error + string) \<times> AddressBook" where
  "add_contact_body args book =
    (if length args < 2 then (Inl (IndexError ''list index out of range''), book)
     else
       let n = args ! 0; phone = args ! 1 in
       (case find_record n book of
          None \<Rightarrow>
            let record = Record_init n;
                book1 = add_record record book;
                (res, record') = add_phone phone record;
                book2 = AList.map_entry n (\<lambda>_. record') book1
            in (case res of Inl e \<Rightarrow> (Inl e, book2) | Inr _ \<Rightarrow> (Inr ''Contact added.'', book2))
        | Some record \<Rightarrow>
            let (res, record') = add_phone phone record;
                book1 = AList.map_entry n (\<lambda>_. record') book
            in (case res of Inl e \<Rightarrow> (Inl e, book1) | Inr _ \<Rightarrow> (Inr ''Contact updated.'', book1))))"

definition add_contact :: "string list \<Rightarrow> AddressBook \<Rightarrow> (error + string) \<times> AddressBook" where
  "add_contact args book =
    (let (res, book') = add_contact_body args book in (input_error res, book'))"

section \<open>Notions used in the statements\<close>

text \<open>
  What the month estimate of \<open>ord2ymd\<close> has to deliver for the day \<open>r\<close> of a year
  (counted from 0) that is a leap year or not: a month and a day of that month.
\<close>

definition month_day_ok :: "bool \<Rightarrow> int \<Rightarrow> int \<Rightarrow> int \<Rightarrow> bool" where
  "month_day_ok lp r M D =
    (1 \<le> M \<and> M \<le> 12 \<and> 1 \<le> D
     \<and> D \<le> (if M = 2 \<and> lp then 29 else DAYS_IN_MONTH ! nat M)
     \<and> DAYS_BEFORE_MONTH ! nat M + (if M > 2 \<and> lp then 1 else 0) + D = r + 1)"

text \<open>Month and day of a date are in range (the year is not looked at).\<close>

definition date_fields_ok :: "date \<Rightarrow> bool" where
  "date_fields_ok t =
    (1 \<le> month t \<and> month t \<le> 12 \<and> 1 \<le> day t \<and> day t \<le> days_in_month (year t) (month t))"

text \<open>
  The date the specification calls \<open>thisYearBirthday\<close>: the day and month of the
  birthday in the year of \<open>today\<close>, and in the year after when that is strictly earlier
  than \<open>today\<close>.
\<close>

definition spec_this_year_birthday :: "date \<Rightarrow> date \<Rightarrow> date" where
  "spec_this_year_birthday today bd =
    (if date_less (bd\<lparr>year := year today\<rparr>) today then bd\<lparr>year := year today + 1\<rparr>
     else bd\<lparr>year := year today\<rparr>)"

text \<open>
  The day and month of the birthday exist in the years \<open>thisYearBirthday\<close> needs: in the
  year of \<open>today\<close>, and in the year after when the first date is already past. It fails
  for 29 February against a year that is no leap year, and for the year after 9999.
\<close>

definition recurrence_defined :: "date \<Rightarrow> date \<Rightarrow> bool" where
  "recurrence_defined today bd =
    (check_date_fields (year today) (month bd) (day bd)
     \<and> (if date_less (bd\<lparr>year := year today\<rparr>) today
        then check_date_fields (year today + 1) (month bd) (day bd) else True))"

text \<open>
  What one record contributes to the result of \<^verbatim>\<open>get_upcoming_birthdays\<close>: its
  item, or nothing (also when the body of the loop raises for it).
\<close>

definition item_of :: "date \<Rightarrow> int \<Rightarrow> Record \<Rightarrow> (string \<times> string) option" where
  "item_of today days record =
    (case upcoming_item today days record of Inl e \<Rightarrow> None | Inr x \<Rightarrow> x)"

text \<open>
  The texts a group of the regular expression of \<^verbatim>\<open>strptime\<close> is read from: a day
  of one or two digits, the first of two possibly a blank; a month of one or two digits;
  a year of four digits. \<open>alt_matches\<close>: a text matches an alternative of a group, class
  by class.
\<close>

definition day_text :: "string \<Rightarrow> bool" where
  "day_text ds =
    (case ds of
       [a] \<Rightarrow> ascii_digit a
     | [a, b] \<Rightarrow> (ascii_digit a \<or> a = CHR '' '') \<and> ascii_digit b
     | _ \<Rightarrow> False)"

definition month_text :: "string \<Rightarrow> bool" where
  "month_text ms =
    (case ms of
       [a] \<Rightarrow> ascii_digit a
     | [a, b] \<Rightarrow> ascii_digit a \<and> ascii_digit b
     | _ \<Rightarrow> False)"

definition year_text :: "string \<Rightarrow> bool" where
  "year_text ys =
    (case ys of
       [a, b, c, d] \<Rightarrow> ascii_digit a \<and> ascii_digit b \<and> ascii_digit c \<and> ascii_digit d
     | _ \<Rightarrow> False)"

definition alt_matches :: "string list \<Rightarrow> string \<Rightarrow> bool" where
  "alt_matches alt t = list_all2 (\<lambda>cls c. c \<in> set cls) alt t"

text \<open>
  The pattern \<^verbatim>\<open>DD.MM.YYYY\<close> read exactly, as the specification words it: two
  digits, a dot, two digits, a dot, four digits.
\<close>

definition matches_DD_MM_YYYY :: "string \<Rightarrow> bool" where
  "matches_DD_MM_YYYY raw =
    (length raw = 10 \<and> raw ! 2 = CHR ''.'' \<and> raw ! 5 = CHR ''.''
     \<and> list_all ascii_digit (take 2 raw @ take 2 (drop 3 raw) @ drop 6 raw))"

text \<open>A name is among the items of a result; no name is when the call raised.\<close>

definition includes_name :: "error + (string \<times> string) list \<Rightarrow> string \<Rightarrow> bool" where
  "includes_name res n = (case res of Inl e \<Rightarrow> False | Inr out \<Rightarrow> n \<in> fst ` set out)"

text \<open>The index of the first element equal to \<open>x\<close> (the length, when there is none).\<close>

definition first_index :: "'a \<Rightarrow> 'a list \<Rightarrow> nat" where
  "first_index x xs = length (takeWhile (\<lambda>y. y \<noteq> x) xs)"

section \<open>The calendar: ordinals of dates\<close>

lemma div_step:
  assumes k: "0 < k"
  shows "(y::int) div k = (y - 1) div k + (if y mod k = 0 then 1 else 0)"
proof (cases "y mod k = 0")
  case True
  have "(y div k - 1) * k + k = y div k * k" by (simp add: algebra_simps)
  with True have "k * (y div k - 1) + (k - 1) = y - 1"
    using div_mult_mod_eq [of y k] by (simp add: mult.commute)
  then have eq: "y - 1 = k * (y div k - 1) + (k - 1)" by (rule sym)
  have "(y - 1) div k = y div k - 1"
  proof (rule int_div_pos_eq [of "y - 1" k "y div k - 1" "k - 1"])
    show "y - 1 = k * (y div k - 1) + (k - 1)" by (rule eq)
    show "0 \<le> k - 1" using k by simp
    show "k - 1 < k" by simp
  qed
  with True show ?thesis by simp
next
  case False
  have "0 \<le> y mod k" using k by simp
  with False have pos: "0 \<le> y mod k - 1" by simp
  have lt: "y mod k - 1 < k" using pos_mod_bound [OF k, of y] by simp
  have eq: "y - 1 = k * (y div k) + (y mod k - 1)"
    using mult_div_mod_eq [of k y] by linarith
  have "(y - 1) div k = y div k"
    by (rule int_div_pos_eq [of "y - 1" k "y div k" "y mod k - 1"]) (rule eq pos lt)+
  with False show ?thesis by simp
qed

lemma mod_400_100: "(y::int) mod 400 = 0 \<Longrightarrow> y mod 100 = 0"
  by auto
lemma mod_100_4: "(y::int) mod 100 = 0 \<Longrightarrow> y mod 4 = 0"
  by auto

lemma days_before_year_next:
  "days_before_year (y + 1) = days_before_year y + (if is_leap y then 366 else 365)"
proof -
  define a where "a = (y - 1) div 4"
  define b where "b = (y - 1) div 100"
  define c where "c = (y - 1) div 400"
  have d4: "y div 4 = a + (if y mod 4 = 0 then 1 else 0)"
    and d100: "y div 100 = b + (if y mod 100 = 0 then 1 else 0)"
    and d400: "y div 400 = c + (if y mod 400 = 0 then 1 else 0)"
    unfolding a_def b_def c_def by (rule div_step, simp)+
  have lhs: "days_before_year (y + 1) = y * 365 + y div 4 - y div 100 + y div 400"
    by (simp add: days_before_year_def Let_def)
  have rhs: "days_before_year y = (y - 1) * 365 + a - b + c"
    by (simp add: days_before_year_def Let_def a_def b_def c_def)
  consider (n4) "y mod 4 \<noteq> 0" | (n100) "y mod 4 = 0" "y mod 100 \<noteq> 0"
    | (n400) "y mod 100 = 0" "y mod 400 \<noteq> 0" | (y400) "y mod 400 = 0"
    by argo
  then show ?thesis
  proof cases
    case n4
    then have "y mod 100 \<noteq> 0" "y mod 400 \<noteq> 0"
      using mod_100_4 [of y] mod_400_100 [of y] by argo+
    with n4 d4 d100 d400 have "y div 4 = a" "y div 100 = b" "y div 400 = c" "\<not> is_leap y"
      by (simp_all add: is_leap_def)
    then show ?thesis unfolding lhs rhs by (simp add: algebra_simps)
  next
    case n100
    then have "y mod 400 \<noteq> 0"
      using mod_400_100 [of y] by argo
    with n100 d4 d100 d400 have "y div 4 = a + 1" "y div 100 = b" "y div 400 = c" "is_leap y"
      by (simp_all add: is_leap_def)
    then show ?thesis unfolding lhs rhs by (simp add: algebra_simps)
  next
    case n400
    then have "y mod 4 = 0"
      using mod_100_4 [of y] by argo
    with n400 d4 d100 d400 have "y div 4 = a + 1" "y div 100 = b + 1" "y div 400 = c" "\<not> is_leap y"
      by (simp_all add: is_leap_def)
    then show ?thesis unfolding lhs rhs by (simp add: algebra_simps)
  next
    case y400
    then have "y mod 100 = 0" "y mod 4 = 0"
      using mod_100_4 [of y] mod_400_100 [of y] by argo+
    with y400 d4 d100 d400 have "y div 4 = a + 1" "y div 100 = b + 1" "y div 400 = c + 1" "is_leap y"
      by (simp_all add: is_leap_def)
    then show ?thesis unfolding lhs rhs by (simp add: algebra_simps)
  qed
qed

lemma days_before_year_mono: "a \<le> b \<Longrightarrow> days_before_year a \<le> days_before_year b"
proof (induction b rule: int_ge_induct)
  case base
  show ?case by simp
next
  case (step i)
  then show ?case by (simp add: days_before_year_next)
qed

lemma month_cases:
  "1 \<le> m \<Longrightarrow> m \<le> 12 \<Longrightarrow>
   (m::int) = 1 \<or> m = 2 \<or> m = 3 \<or> m = 4 \<or> m = 5 \<or> m = 6 \<or> m = 7 \<or> m = 8 \<or> m = 9 \<or> m = 10 \<or> m = 11 \<or> m = 12"
  by arith

lemma month_end_le:
  "1 \<le> m \<Longrightarrow> m \<le> 12 \<Longrightarrow>
   days_before_month y m + days_in_month y m \<le> (if is_leap y then 366 else 365)"
  using month_cases [of m]
  by (auto simp: days_before_month_def days_in_month_def DAYS_BEFORE_MONTH_def DAYS_IN_MONTH_def)

lemma days_before_month_nonneg: "1 \<le> m \<Longrightarrow> m \<le> 12 \<Longrightarrow> 0 \<le> days_before_month y m"
  using month_cases [of m]
  by (auto simp: days_before_month_def DAYS_BEFORE_MONTH_def)

lemma ymd2ord_bounds:
  assumes "check_date_fields y m d"
  shows "1 \<le> ymd2ord y m d" and "ymd2ord y m d \<le> MAXORDINAL"
proof -
  from assms have y: "1 \<le> y" "y \<le> 9999" and m: "1 \<le> m" "m \<le> 12"
    and d: "1 \<le> d" "d \<le> days_in_month y m"
    by (simp_all add: check_date_fields_def MINYEAR_def MAXYEAR_def)
  have "days_before_year 1 \<le> days_before_year y"
    by (rule days_before_year_mono) (rule y)
  moreover have "days_before_year 1 = 0"
    by (simp add: days_before_year_def)
  ultimately show "1 \<le> ymd2ord y m d"
    using days_before_month_nonneg [OF m, of y] d by (simp add: ymd2ord_def)
  have "ymd2ord y m d \<le> days_before_year (y + 1)"
    using month_end_le [OF m, of y] d by (simp add: ymd2ord_def days_before_year_next)
  also have "\<dots> \<le> days_before_year 10000"
    by (rule days_before_year_mono) (use y in simp)
  also have "\<dots> = MAXORDINAL"
    by (simp add: days_before_year_def MAXORDINAL_def)
  finally show "ymd2ord y m d \<le> MAXORDINAL" .
qed

lemma days_before_year_cycles:
  assumes b: "0 \<le> b" "b \<le> 3" and c: "0 \<le> c" "c \<le> 24" and d: "0 \<le> d" "d \<le> 3"
  shows "days_before_year (400 * a + 100 * b + 4 * c + d + 1)
          = 146097 * a + 36524 * b + 1461 * c + 365 * d"
proof -
  let ?y = "400 * a + 100 * b + 4 * c + d"
  have d4: "?y div 4 = 100 * a + 25 * b + c"
    by (rule int_div_pos_eq [where r = d]) (use d in simp_all)
  have d100: "?y div 100 = 4 * a + b"
    by (rule int_div_pos_eq [where r = "4 * c + d"]) (use c d in simp_all)
  have d400: "?y div 400 = a"
    by (rule int_div_pos_eq [where r = "100 * b + 4 * c + d"]) (use b c d in simp_all)
  show ?thesis
    by (simp add: days_before_year_def Let_def d4 d100 d400)
qed

lemma is_leap_cycles:
  assumes b: "0 \<le> b" "b \<le> 3" and c: "0 \<le> c" "c \<le> 24" and d: "0 \<le> d" "d \<le> 3"
  shows "is_leap (400 * a + 100 * b + 4 * c + d + 1) \<longleftrightarrow> d = 3 \<and> (c \<noteq> 24 \<or> b = 3)"
proof -
  let ?y = "400 * a + 100 * b + 4 * c + d + 1"
  have m4: "?y mod 4 = (if d = 3 then 0 else d + 1)"
  proof (cases "d = 3")
    case True
    have "?y mod 4 = 0"
      by (rule int_mod_pos_eq [where q = "100 * a + 25 * b + c + 1"]) (use True in simp_all)
    with True show ?thesis by simp
  next
    case False
    have "?y mod 4 = d + 1"
      by (rule int_mod_pos_eq [where q = "100 * a + 25 * b + c"]) (use False d in simp_all)
    with False show ?thesis by simp
  qed
  have m100: "?y mod 100 = (if c = 24 \<and> d = 3 then 0 else 4 * c + d + 1)"
  proof (cases "c = 24 \<and> d = 3")
    case True
    have "?y mod 100 = 0"
      by (rule int_mod_pos_eq [where q = "4 * a + b + 1"]) (use True in simp_all)
    with True show ?thesis by simp
  next
    case False
    have "?y mod 100 = 4 * c + d + 1"
      by (rule int_mod_pos_eq [where q = "4 * a + b"]) (use False c d in auto)
    with False show ?thesis by simp
  qed
  have m400: "?y mod 400 = (if b = 3 \<and> c = 24 \<and> d = 3 then 0 else 100 * b + 4 * c + d + 1)"
  proof (cases "b = 3 \<and> c = 24 \<and> d = 3")
    case True
    have "?y mod 400 = 0"
      by (rule int_mod_pos_eq [where q = "a + 1"]) (use True in simp_all)
    with True show ?thesis by simp
  next
    case False
    have "?y mod 400 = 100 * b + 4 * c + d + 1"
      by (rule int_mod_pos_eq [where q = "a"]) (use False b c d in auto)
    with False show ?thesis by simp
  qed
  show ?thesis
    unfolding is_leap_def m4 m100 m400 using b c d by auto
qed

lemma month_of_offset:
  assumes r: "0 \<le> r" "r \<le> 364"
  shows "let m = (r + 50) div 32;
             preceding = DAYS_BEFORE_MONTH ! nat m + (if m > 2 \<and> lp then 1 else 0)
         in if preceding > r
            then let m' = m - 1;
                     preceding' = preceding - (DAYS_IN_MONTH ! nat m' + (if m' = 2 \<and> lp then 1 else 0))
                 in month_day_ok lp r m' (r - preceding' + 1)
            else month_day_ok lp r m (r - preceding + 1)"
proof -
  define m where "m = (r + 50) div 32"
  have mb: "32 * m \<le> r + 50" "r + 50 < 32 * m + 32"
    unfolding m_def by linarith+
  then have "1 \<le> m" "m \<le> 12"
    using r by linarith+
  from month_cases [OF this] show ?thesis
    unfolding Let_def m_def [symmetric] month_day_ok_def
    using mb r
    by (elim disjE) (simp_all add: DAYS_BEFORE_MONTH_def DAYS_IN_MONTH_def)
qed

lemma toordinal_dec31_leap:
  "is_leap y \<Longrightarrow> toordinal \<lparr>year = y, month = 12, day = 31\<rparr> = days_before_year (y + 1)"
  by (simp add: toordinal_def ymd2ord_def days_before_month_def DAYS_BEFORE_MONTH_def
      days_before_year_next)

lemma month_of_offset_rule:
  assumes r: "0 \<le> r" "r \<le> 364"
    and step: "\<And>M D. month_day_ok lp r M D \<Longrightarrow> Q \<lparr>year = y, month = M, day = D\<rparr>"
  shows "Q (let m = (r + 50) div 32;
                preceding = DAYS_BEFORE_MONTH ! nat m + (if m > 2 \<and> lp then 1 else 0)
            in if preceding > r
               then let m' = m - 1;
                        preceding' = preceding
                          - (DAYS_IN_MONTH ! nat m' + (if m' = 2 \<and> lp then 1 else 0))
                    in \<lparr>year = y, month = m', day = r - preceding' + 1\<rparr>
               else \<lparr>year = y, month = m, day = r - preceding + 1\<rparr>)"
proof -
  define m where "m = (r + 50) div 32"
  define preceding where
    "preceding = DAYS_BEFORE_MONTH ! nat m + (if m > 2 \<and> lp then 1 else 0)"
  define preceding' where
    "preceding' = preceding - (DAYS_IN_MONTH ! nat (m - 1) + (if m - 1 = 2 \<and> lp then 1 else 0))"
  have h: "if preceding > r then month_day_ok lp r (m - 1) (r - preceding' + 1)
           else month_day_ok lp r m (r - preceding + 1)"
    using month_of_offset [OF r, of lp]
    unfolding Let_def m_def preceding_def preceding'_def .
  have "Q (if preceding > r then \<lparr>year = y, month = m - 1, day = r - preceding' + 1\<rparr>
           else \<lparr>year = y, month = m, day = r - preceding + 1\<rparr>)"
  proof (cases "preceding > r")
    case True
    with h have "month_day_ok lp r (m - 1) (r - preceding' + 1)" by simp
    from step [OF this] True show ?thesis by simp
  next
    case False
    with h have "month_day_ok lp r m (r - preceding + 1)" by simp
    from step [OF this] False show ?thesis by simp
  qed
  then show ?thesis
    unfolding Let_def m_def preceding_def preceding'_def .
qed

lemma ord2ymd_correct: "toordinal (ord2ymd n) = n \<and> date_fields_ok (ord2ymd n)"
proof -
  define n0 where "n0 = n - 1"
  define q400 where "q400 = n0 div 146097"
  define r400 where "r400 = n0 mod 146097"
  define q100 where "q100 = r400 div 36524"
  define r100 where "r100 = r400 mod 36524"
  define q4 where "q4 = r100 div 1461"
  define r4 where "r4 = r100 mod 1461"
  define q1 where "q1 = r4 div 365"
  define r1 where "r1 = r4 mod 365"
  define y where "y = q400 * 400 + 1 + q100 * 100 + q4 * 4 + q1"
  define lp where "lp = (q1 = 3 \<and> (q4 \<noteq> 24 \<or> q100 = 3))"
  note defs = n0_def q400_def r400_def q100_def r100_def q4_def r4_def q1_def r1_def y_def lp_def
  have e400: "n0 = 146097 * q400 + r400" and b400: "0 \<le> r400" "r400 < 146097"
    unfolding q400_def r400_def by simp_all
  have e100: "r400 = 36524 * q100 + r100" and b100: "0 \<le> r100" "r100 < 36524"
    unfolding q100_def r100_def by simp_all
  have e4: "r100 = 1461 * q4 + r4" and b4: "0 \<le> r4" "r4 < 1461"
    unfolding q4_def r4_def by simp_all
  have e1: "r4 = 365 * q1 + r1" and b1: "0 \<le> r1" "r1 < 365"
    unfolding q1_def r1_def by simp_all
  have q100b: "0 \<le> q100" "q100 \<le> 4"
    using b400 unfolding q100_def by linarith+
  have q4b: "0 \<le> q4" "q4 \<le> 24"
    using b100 unfolding q4_def by linarith+
  have q1b: "0 \<le> q1" "q1 \<le> 4"
    using b4 unfolding q1_def by linarith+
  have n_eq: "n = 146097 * q400 + 36524 * q100 + 1461 * q4 + 365 * q1 + r1 + 1"
    using e400 e100 e4 e1 by (simp add: n0_def)
  have res: "ord2ymd n =
    (if q1 = 4 \<or> q100 = 4 then \<lparr>year = y - 1, month = 12, day = 31\<rparr>
     else
       let m = (r1 + 50) div 32;
           preceding = DAYS_BEFORE_MONTH ! nat m + (if m > 2 \<and> lp then 1 else 0)
       in if preceding > r1
          then let m' = m - 1;
                   preceding' = preceding
                     - (DAYS_IN_MONTH ! nat m' + (if m' = 2 \<and> lp then 1 else 0))
               in \<lparr>year = y, month = m', day = r1 - preceding' + 1\<rparr>
          else \<lparr>year = y, month = m, day = r1 - preceding + 1\<rparr>)"
    unfolding ord2ymd_def defs Let_def by (rule refl)
  show ?thesis
  proof (cases "q100 = 4")
    case True
    with e100 b100 b400 have "r100 = 0" by linarith
    then have z: "q4 = 0" "q1 = 0" "r1 = 0"
      by (simp_all add: q4_def r4_def q1_def r1_def)
    have yv: "y - 1 = 400 * q400 + 100 * 3 + 4 * 24 + 3 + 1"
      using True z by (simp add: y_def)
    have leap: "is_leap (y - 1)"
      unfolding yv by (subst is_leap_cycles) simp_all
    have "y - 1 + 1 = 400 * (q400 + 1) + 100 * 0 + 4 * 0 + 0 + 1"
      using True z by (simp add: y_def)
    then have "days_before_year (y - 1 + 1) = 146097 * (q400 + 1)"
      using days_before_year_cycles [of 0 0 0 "q400 + 1"] by simp
    then have "toordinal \<lparr>year = y - 1, month = 12, day = 31\<rparr> = n"
      using True z by (simp add: toordinal_dec31_leap [OF leap] n_eq)
    moreover have "date_fields_ok \<lparr>year = y - 1, month = 12, day = 31\<rparr>"
      by (simp add: date_fields_ok_def days_in_month_def DAYS_IN_MONTH_def)
    ultimately show ?thesis
      using True by (simp add: res)
  next
    case n100: False
    with q100b have q100b': "q100 \<le> 3" by simp
    show ?thesis
    proof (cases "q1 = 4")
      case True
      with e1 b1 b4 have r1z: "r1 = 0" by linarith
      have q4lt: "q4 \<le> 23"
        using e4 e1 True b100 b1 by linarith
      have yv: "y - 1 = 400 * q400 + 100 * q100 + 4 * q4 + 3 + 1"
        using True by (simp add: y_def)
      have leap: "is_leap (y - 1)"
        unfolding yv using q100b q100b' q4b q4lt by (subst is_leap_cycles) simp_all
      have "y - 1 + 1 = 400 * q400 + 100 * q100 + 4 * (q4 + 1) + 0 + 1"
        using True by (simp add: y_def)
      then have "days_before_year (y - 1 + 1) = 146097 * q400 + 36524 * q100 + 1461 * (q4 + 1)"
        using days_before_year_cycles [of q100 "q4 + 1" 0 q400] q100b q100b' q4b q4lt by simp
      then have "toordinal \<lparr>year = y - 1, month = 12, day = 31\<rparr> = n"
        using True r1z by (simp add: toordinal_dec31_leap [OF leap] n_eq)
      moreover have "date_fields_ok \<lparr>year = y - 1, month = 12, day = 31\<rparr>"
        by (simp add: date_fields_ok_def days_in_month_def DAYS_IN_MONTH_def)
      ultimately show ?thesis
        using True by (simp add: res)
    next
      case n1: False
      with q1b have q1b': "q1 \<le> 3" by simp
      have yv: "y = 400 * q400 + 100 * q100 + 4 * q4 + q1 + 1"
        by (simp add: y_def)
      have dby: "days_before_year y = 146097 * q400 + 36524 * q100 + 1461 * q4 + 365 * q1"
        unfolding yv using q100b q100b' q4b q1b q1b' by (intro days_before_year_cycles)
      have leap: "is_leap y = lp"
        unfolding yv lp_def using q100b q100b' q4b q1b q1b' by (intro is_leap_cycles)
      have r1b: "0 \<le> r1" "r1 \<le> 364"
        using b1 by simp_all
      have ok: "month_day_ok lp r1 M D \<Longrightarrow>
          toordinal \<lparr>year = y, month = M, day = D\<rparr> = n
          \<and> date_fields_ok \<lparr>year = y, month = M, day = D\<rparr>" for M D
        by (auto simp: month_day_ok_def toordinal_def ymd2ord_def days_before_month_def dby leap
            n_eq date_fields_ok_def days_in_month_def)
      have "toordinal (ord2ymd n) = n \<and> date_fields_ok (ord2ymd n)"
        unfolding res if_not_P [OF conjI [OF n1 n100, unfolded de_Morgan_disj [symmetric]]]
        by (rule month_of_offset_rule [OF r1b, where lp = lp]) (rule ok)
      then show ?thesis .
    qed
  qed
qed

section \<open>This year's birthday and the greeting date\<close>

lemma new_date_iff: "new_date y m d = Inr t \<longleftrightarrow> check_date_fields y m d \<and> t = \<lparr>year = y, month = m, day = d\<rparr>"
  by (auto simp: new_date_def check_date_fields_def)

lemma new_date_Inl_iff: "(\<exists>e. new_date y m d = Inl e) \<longleftrightarrow> \<not> check_date_fields y m d"
  by (auto simp: new_date_def check_date_fields_def)

lemma bday_this_year_iff:
  "bday_this_year today v = Inr b \<longleftrightarrow>
     (\<exists>bd. strptime_dmY v = Inr bd \<and> recurrence_defined today bd
           \<and> b = spec_this_year_birthday today bd)"
proof (cases "strptime_dmY v")
  case (Inl e)
  then show ?thesis by (simp add: bday_this_year_def)
next
  case (Inr bd)
  show ?thesis
  proof (cases "check_date_fields (year today) (month bd) (day bd)")
    case False
    then have "\<exists>e. new_date (year today) (month bd) (day bd) = Inl e"
      by (simp add: new_date_Inl_iff)
    then show ?thesis
      using Inr False by (auto simp: bday_this_year_def replace_year_def recurrence_defined_def)
  next
    case True
    then have n1: "new_date (year today) (month bd) (day bd) = Inr (bd\<lparr>year := year today\<rparr>)"
      by (simp add: new_date_iff)
    show ?thesis
    proof (cases "date_less (bd\<lparr>year := year today\<rparr>) today")
      case False
      then show ?thesis
        using Inr True n1
        by (auto simp: bday_this_year_def replace_year_def recurrence_defined_def
            spec_this_year_birthday_def)
    next
      case less: True
      show ?thesis
      proof (cases "check_date_fields (year today + 1) (month bd) (day bd)")
        case True
        then have "new_date (year today + 1) (month bd) (day bd) = Inr (bd\<lparr>year := year today + 1\<rparr>)"
          by (simp add: new_date_iff)
        then show ?thesis
          using Inr \<open>check_date_fields (year today) (month bd) (day bd)\<close> n1 less True
          by (auto simp: bday_this_year_def replace_year_def recurrence_defined_def
              spec_this_year_birthday_def)
      next
        case False
        then have "\<exists>e. new_date (year today + 1) (month bd) (day bd) = Inl e"
          by (simp add: new_date_Inl_iff)
        then show ?thesis
          using Inr n1 less False
          by (auto simp: bday_this_year_def replace_year_def recurrence_defined_def)
      qed
    qed
  qed
qed

lemma bday_this_year_valid: "bday_this_year today v = Inr b \<Longrightarrow> valid_date b"
  by (auto simp: bday_this_year_iff recurrence_defined_def spec_this_year_birthday_def
      valid_date_def split: if_splits)

lemma toordinal_bounds: "valid_date t \<Longrightarrow> 1 \<le> toordinal t \<and> toordinal t \<le> MAXORDINAL"
  using ymd2ord_bounds [of "year t" "month t" "day t"] by (simp add: valid_date_def toordinal_def)

lemma saturday_fits: "1 \<le> (n::int) \<Longrightarrow> n \<le> 3652059 \<Longrightarrow> (n + 6) mod 7 = 5 \<Longrightarrow> n + 2 \<le> 3652059"
  by presburger

lemma sunday_fits: "1 \<le> (n::int) \<Longrightarrow> n \<le> 3652059 \<Longrightarrow> (n + 6) mod 7 = 6 \<Longrightarrow> n + 1 \<le> 3652059"
  by presburger

lemma congrat_date_total:
  assumes "valid_date b"
  shows "congrat_date b =
     Inr (if weekday b = 5 then fromordinal (toordinal b + 2)
          else if weekday b = 6 then fromordinal (toordinal b + 1) else b)"
  using toordinal_bounds [OF assms] saturday_fits [of "toordinal b"] sunday_fits [of "toordinal b"]
  by (simp add: congrat_date_def date_add_def weekday_def MAXORDINAL_def Let_def)

section \<open>Phone validation\<close>

text \<open>
  C4: \<^verbatim>\<open>Phone(raw)\<close> is to succeed exactly on the strings of ten decimal digit
  characters, as its message "Phone number must contain exactly 10 digits." says. The
  code departs from it on the string of ten U+00B2 (superscript two): \<^verbatim>\<open>str.isdigit\<close>
  is true of the superscript digits, which are no decimal digits, so the string passes
  the check and is stored as a phone.
\<close>

theorem Phone_superscript_counterexample:
  "Phone [CHR 0xB2, CHR 0xB2, CHR 0xB2, CHR 0xB2, CHR 0xB2, CHR 0xB2, CHR 0xB2, CHR 0xB2,
          CHR 0xB2, CHR 0xB2]
     = Inr [CHR 0xB2, CHR 0xB2, CHR 0xB2, CHR 0xB2, CHR 0xB2, CHR 0xB2, CHR 0xB2, CHR 0xB2,
            CHR 0xB2, CHR 0xB2]
   \<and> \<not> list_all ascii_digit
         [CHR 0xB2, CHR 0xB2, CHR 0xB2, CHR 0xB2, CHR 0xB2, CHR 0xB2, CHR 0xB2, CHR 0xB2,
          CHR 0xB2, CHR 0xB2]"
  by (simp add: Phone_def isdigit_def isdigit_char_def ascii_digit_def cls_09_def)

section \<open>Deleting a record\<close>

lemma delete_filter: "AList.delete n book = filter (\<lambda>(k, r). k \<noteq> n) book"
  by (induction book) auto

text \<open>
  C8: \<^verbatim>\<open>delete(name)\<close> on a book that has the name returns normally and leaves the
  book without the entry of that name, every other entry kept in its place; on a book
  without the name it raises \<^verbatim>\<open>KeyError("Contact not found.")\<close> and the book is
  unchanged.
\<close>

theorem delete_spec:
  "(n \<in> fst ` set book \<longrightarrow>
      fst (delete n book) = Inr ()
      \<and> snd (delete n book) = filter (\<lambda>(k, r). k \<noteq> n) book
      \<and> find_record n (snd (delete n book)) = None
      \<and> (\<forall>k. k \<noteq> n \<longrightarrow> find_record k (snd (delete n book)) = find_record k book))
   \<and> (n \<notin> fst ` set book \<longrightarrow>
      delete n book = (Inl (KeyError ''Contact not found.''), book))"
proof -
  have gone: "find_record n (AList.delete n book) = None"
    by (simp add: find_record_def AList.delete_conv')
  have kept: "\<forall>k. k \<noteq> n \<longrightarrow> find_record k (AList.delete n book) = find_record k book"
    by (simp add: find_record_def AList.delete_conv')
  show ?thesis
    using gone kept by (simp add: delete_def delete_filter)
qed

theorem delete_spec_witness:
  "delete ''Bob'' [(''Bob'', Record_init ''Bob''), (''Eve'', Record_init ''Eve'')]
     = (Inr (), [(''Eve'', Record_init ''Eve'')])
   \<and> delete ''Zed'' [(''Bob'', Record_init ''Bob''), (''Eve'', Record_init ''Eve'')]
     = (Inl (KeyError ''Contact not found.''),
        [(''Bob'', Record_init ''Bob''), (''Eve'', Record_init ''Eve'')])"
  using delete_spec [of "''Bob''" "[(''Bob'', Record_init ''Bob''), (''Eve'', Record_init ''Eve'')]"]
    delete_spec [of "''Zed''" "[(''Bob'', Record_init ''Bob''), (''Eve'', Record_init ''Eve'')]"]
  by (auto simp: prod_eq_iff)

section \<open>Setting a birthday\<close>

lemmas strptime_eval = strptime_dmY_def format_regex_match_def match_group_def re_d_def re_m_def
  re_Y_def re_dot_def cls_09_def cls_19_def List.map_filter_def py_int_def digit_val_def new_date_def MINYEAR_def
  MAXYEAR_def days_in_month_def DAYS_IN_MONTH_def is_leap_def

lemma strptime_raises_ValueError: "strptime_dmY s = Inl e \<Longrightarrow> \<exists>m. e = ValueError m"
  by (auto simp: strptime_dmY_def new_date_def split: list.splits if_splits)

lemma Birthday_cases:
  "Birthday s = (case strptime_dmY s of Inr _ \<Rightarrow> Inr s
                 | Inl _ \<Rightarrow> Inl (ValueError ''Invalid date format. Use DD.MM.YYYY''))"
  by (auto simp: Birthday_def split: sum.splits error.splits dest: strptime_raises_ValueError)

text \<open>
  C10: when \<^verbatim>\<open>Birthday(birthday_str)\<close> does not succeed, \<^verbatim>\<open>add_birthday\<close> raises the
  validation error "Invalid date format. Use DD.MM.YYYY" and the record, its birthday
  included, is as it was (set or unset); when it succeeds the birthday becomes the
  string given.
\<close>

theorem add_birthday_invalid_keeps_birthday:
  "((\<nexists>b. Birthday s = Inr b) \<longrightarrow>
      add_birthday s r = (Inl (ValueError ''Invalid date format. Use DD.MM.YYYY''), r)
      \<and> birthday (snd (add_birthday s r)) = birthday r)
   \<and> (\<forall>b. Birthday s = Inr b \<longrightarrow> add_birthday s r = (Inr (), r\<lparr>birthday := Some s\<rparr>))"
  by (auto simp: add_birthday_def Birthday_cases split: sum.splits)

theorem add_birthday_invalid_keeps_birthday_witness:
  "add_birthday ''31.02.2024'' \<lparr>name = ''Bob'', phones = [], birthday = Some ''15.06.2020''\<rparr>
     = (Inl (ValueError ''Invalid date format. Use DD.MM.YYYY''),
        \<lparr>name = ''Bob'', phones = [], birthday = Some ''15.06.2020''\<rparr>)
   \<and> add_birthday ''2024-02-31'' \<lparr>name = ''Bob'', phones = [], birthday = None\<rparr>
     = (Inl (ValueError ''Invalid date format. Use DD.MM.YYYY''),
        \<lparr>name = ''Bob'', phones = [], birthday = None\<rparr>)
   \<and> add_birthday ''16.06.2021'' \<lparr>name = ''Bob'', phones = [], birthday = Some ''15.06.2020''\<rparr>
     = (Inr (), \<lparr>name = ''Bob'', phones = [], birthday = Some ''16.06.2021''\<rparr>)"
  using add_birthday_invalid_keeps_birthday [of "''31.02.2024''" "\<lparr>name = ''Bob'', phones = [], birthday = Some ''15.06.2020''\<rparr>"]
   add_birthday_invalid_keeps_birthday [of "''2024-02-31''" "\<lparr>name = ''Bob'', phones = [], birthday = None\<rparr>"]
   add_birthday_invalid_keeps_birthday [of "''16.06.2021''" "\<lparr>name = ''Bob'', phones = [], birthday = Some ''15.06.2020''\<rparr>"]
  by (simp add: Birthday_cases strptime_eval)

section \<open>Adding a contact\<close>

lemma update_absent: "map_of book n = None \<Longrightarrow> AList.update n v book = book @ [(n, v)]"
  by (induction book) (auto split: if_splits)

lemma update_appended:
  "map_of book n = None \<Longrightarrow> AList.update n v' (book @ [(n, v)]) = book @ [(n, v')]"
  by (induction book) (auto split: if_splits)

lemma update_same: "map_of book n = Some r \<Longrightarrow> AList.update n r book = book"
  by (induction book) (auto split: if_splits)

lemma map_entry_appended:
  "map_of book n = None \<Longrightarrow> AList.map_entry n f (book @ [(n, v)]) = book @ [(n, f v)]"
  by (induction book) (auto split: if_splits)

lemma map_entry_present:
  "map_of book n = Some r \<Longrightarrow> AList.map_entry n (\<lambda>_. r') book = AList.update n r' book"
  by (induction book) (auto split: if_splits)

lemma add_contact_body_absent:
  "find_record n book = None \<Longrightarrow>
   add_contact_body [n, phone] book =
     (case Phone phone of
        Inl e \<Rightarrow> (Inl e, book @ [(n, \<lparr>name = n, phones = [], birthday = None\<rparr>)])
      | Inr p \<Rightarrow> (Inr ''Contact added.'', book @ [(n, \<lparr>name = n, phones = [p], birthday = None\<rparr>)]))"
  by (simp add: add_contact_body_def add_phone_def Record_init_def add_record_def
      find_record_def update_absent map_entry_appended split: sum.splits)

lemma add_contact_body_present:
  "find_record n book = Some r \<Longrightarrow>
   add_contact_body [n, phone] book =
     (case Phone phone of
        Inl e \<Rightarrow> (Inl e, book)
      | Inr p \<Rightarrow> (Inr ''Contact updated.'', AList.update n (r\<lparr>phones := phones r @ [p]\<rparr>) book))"
  by (simp add: add_contact_body_def add_phone_def find_record_def update_same map_entry_present
      split: sum.splits)

lemma Phone_valid: "isdigit phone \<and> length phone = 10 \<Longrightarrow> Phone phone = Inr phone"
  by (simp add: Phone_def)

lemma Phone_invalid:
  "\<not> (isdigit phone \<and> length phone = 10) \<Longrightarrow>
   Phone phone = Inl (ValueError ''Phone number must contain exactly 10 digits.'')"
  by (simp add: Phone_def)

text \<open>
  C9: \<^verbatim>\<open>add_contact\<close> with a name the book does not have and a phone that fails
  validation raises the validation error in its body (the handler returns the message),
  and the book has gained a record under the name, with no phones: the record is
  inserted before the phone is validated.
\<close>

theorem add_contact_invalid_phone_inserts_record:
  "find_record n book = None \<and> \<not> (isdigit phone \<and> length phone = 10) \<longrightarrow>
     add_contact_body [n, phone] book
       = (Inl (ValueError ''Phone number must contain exactly 10 digits.''),
          book @ [(n, \<lparr>name = n, phones = [], birthday = None\<rparr>)])
     \<and> add_contact [n, phone] book
       = (Inr ''Phone number must contain exactly 10 digits.'',
          book @ [(n, \<lparr>name = n, phones = [], birthday = None\<rparr>)])
     \<and> find_record n (snd (add_contact [n, phone] book))
       = Some \<lparr>name = n, phones = [], birthday = None\<rparr>"
proof (intro impI, elim conjE)
  assume absent: "find_record n book = None" and bad: "\<not> (isdigit phone \<and> length phone = 10)"
  have body: "add_contact_body [n, phone] book
       = (Inl (ValueError ''Phone number must contain exactly 10 digits.''),
          book @ [(n, \<lparr>name = n, phones = [], birthday = None\<rparr>)])"
    by (simp add: add_contact_body_absent [OF absent] Phone_invalid [OF bad])
  have "map_of book n = None"
    using absent by (simp add: find_record_def)
  then have found: "find_record n (book @ [(n, \<lparr>name = n, phones = [], birthday = None\<rparr>)])
      = Some \<lparr>name = n, phones = [], birthday = None\<rparr>"
    by (simp add: find_record_def map_add_def)
  show "add_contact_body [n, phone] book
       = (Inl (ValueError ''Phone number must contain exactly 10 digits.''),
          book @ [(n, \<lparr>name = n, phones = [], birthday = None\<rparr>)])
     \<and> add_contact [n, phone] book
       = (Inr ''Phone number must contain exactly 10 digits.'',
          book @ [(n, \<lparr>name = n, phones = [], birthday = None\<rparr>)])
     \<and> find_record n (snd (add_contact [n, phone] book))
       = Some \<lparr>name = n, phones = [], birthday = None\<rparr>"
    using found by (simp add: body add_contact_def input_error_def)
qed

theorem add_contact_invalid_phone_inserts_record_witness:
  "add_contact [''Alice'', ''12-34''] [(''Bob'', Record_init ''Bob'')]
     = (Inr ''Phone number must contain exactly 10 digits.'',
        [(''Bob'', Record_init ''Bob''), (''Alice'', \<lparr>name = ''Alice'', phones = [], birthday = None\<rparr>)])
   \<and> find_record ''Alice'' (snd (add_contact [''Alice'', ''12-34''] [(''Bob'', Record_init ''Bob'')]))
     = Some \<lparr>name = ''Alice'', phones = [], birthday = None\<rparr>"
  using add_contact_invalid_phone_inserts_record [of "''Alice''" "[(''Bob'', Record_init ''Bob'')]" "''12-34''"]
  by (simp add: find_record_def)

text \<open>
  C5, as stated: \<^verbatim>\<open>add_contact\<close> with a name the book does not have creates a record
  with that name and the phone given and reports "Contact added."; with a name the book
  has it appends the phone and reports "Contact updated.". It fails on the code for a
  phone that \<^verbatim>\<open>Phone\<close> refuses: the call returns the validation message, and the
  phone is in no record.
\<close>

theorem add_contact_refused_phone_counterexample:
  "add_contact [''Alice'', ''12345''] []
     = (Inr ''Phone number must contain exactly 10 digits.'',
        [(''Alice'', \<lparr>name = ''Alice'', phones = [], birthday = None\<rparr>)])
   \<and> add_contact [''Bob'', ''12345'']
        [(''Bob'', \<lparr>name = ''Bob'', phones = [''1111111111''], birthday = None\<rparr>)]
     = (Inr ''Phone number must contain exactly 10 digits.'',
        [(''Bob'', \<lparr>name = ''Bob'', phones = [''1111111111''], birthday = None\<rparr>)])"
  by (simp add: add_contact_def add_contact_body_def add_phone_def Phone_def isdigit_def
      Record_init_def add_record_def find_record_def input_error_def Let_def)

text \<open>
  C5, amended: for a phone that passes validation, \<^verbatim>\<open>add_contact\<close> with a name the
  book does not have appends one record with that name and that phone and returns
  "Contact added."; with a name the book has it appends the phone to that record's
  phones, in place (the keys of the book are unchanged), and returns "Contact updated.";
  two calls with the same new name and two valid phones leave one record with both
  phones in order.
\<close>

theorem add_contact_creates_or_appends:
  "isdigit phone \<and> length phone = 10 \<longrightarrow>
     (find_record n book = None \<longrightarrow>
        add_contact [n, phone] book
          = (Inr ''Contact added.'', book @ [(n, \<lparr>name = n, phones = [phone], birthday = None\<rparr>)]))
     \<and> (\<forall>r. find_record n book = Some r \<longrightarrow>
        add_contact [n, phone] book
          = (Inr ''Contact updated.'', AList.update n (r\<lparr>phones := phones r @ [phone]\<rparr>) book)
        \<and> map fst (snd (add_contact [n, phone] book)) = map fst book
        \<and> find_record n (snd (add_contact [n, phone] book)) = Some (r\<lparr>phones := phones r @ [phone]\<rparr>))
     \<and> (\<forall>phone2. find_record n book = None \<and> isdigit phone2 \<and> length phone2 = 10 \<longrightarrow>
        add_contact [n, phone2] (snd (add_contact [n, phone] book))
          = (Inr ''Contact updated.'',
             book @ [(n, \<lparr>name = n, phones = [phone, phone2], birthday = None\<rparr>)]))"
proof (intro impI)
  assume ok: "isdigit phone \<and> length phone = 10"
  have created: "add_contact [n, phone] book
          = (Inr ''Contact added.'', book @ [(n, \<lparr>name = n, phones = [phone], birthday = None\<rparr>)])"
    if "find_record n book = None"
    by (simp add: add_contact_def add_contact_body_absent [OF that] Phone_valid [OF ok] input_error_def)
  have updated: "add_contact [n, p] bk
          = (Inr ''Contact updated.'', AList.update n (r\<lparr>phones := phones r @ [p]\<rparr>) bk)"
    if "find_record n bk = Some r" and "isdigit p \<and> length p = 10" for r p bk
    by (simp add: add_contact_def add_contact_body_present [OF that(1)] Phone_valid [OF that(2)]
        input_error_def)
  have keys: "map fst (AList.update n v book) = map fst book" if "find_record n book = Some r" for r v
  proof -
    have "n \<in> fst ` set book"
      using that by (auto simp: find_record_def dest: map_of_SomeD intro: rev_image_eqI)
    then show ?thesis by (simp add: update_keys)
  qed
  have twice: "add_contact [n, phone2] (snd (add_contact [n, phone] book))
          = (Inr ''Contact updated.'',
             book @ [(n, \<lparr>name = n, phones = [phone, phone2], birthday = None\<rparr>)])"
    if absent: "find_record n book = None" and ok2: "isdigit phone2 \<and> length phone2 = 10" for phone2
  proof -
    have none: "map_of book n = None"
      using absent by (simp add: find_record_def)
    then have "find_record n (book @ [(n, \<lparr>name = n, phones = [phone], birthday = None\<rparr>)])
        = Some \<lparr>name = n, phones = [phone], birthday = None\<rparr>"
      by (simp add: find_record_def map_add_def)
    from updated [OF this ok2] show ?thesis
      by (simp add: created [OF absent] update_appended [OF none])
  qed
  show "(find_record n book = None \<longrightarrow>
        add_contact [n, phone] book
          = (Inr ''Contact added.'', book @ [(n, \<lparr>name = n, phones = [phone], birthday = None\<rparr>)]))
     \<and> (\<forall>r. find_record n book = Some r \<longrightarrow>
        add_contact [n, phone] book
          = (Inr ''Contact updated.'', AList.update n (r\<lparr>phones := phones r @ [phone]\<rparr>) book)
        \<and> map fst (snd (add_contact [n, phone] book)) = map fst book
        \<and> find_record n (snd (add_contact [n, phone] book)) = Some (r\<lparr>phones := phones r @ [phone]\<rparr>))
     \<and> (\<forall>phone2. find_record n book = None \<and> isdigit phone2 \<and> length phone2 = 10 \<longrightarrow>
        add_contact [n, phone2] (snd (add_contact [n, phone] book))
          = (Inr ''Contact updated.'',
             book @ [(n, \<lparr>name = n, phones = [phone, phone2], birthday = None\<rparr>)]))"
    using created twice by (auto simp: updated [OF _ ok] keys find_record_def update_conv')
qed

theorem add_contact_creates_or_appends_witness:
  "add_contact [''Alice'', ''1234567890''] [] 
     = (Inr ''Contact added.'', [(''Alice'', \<lparr>name = ''Alice'', phones = [''1234567890''], birthday = None\<rparr>)])
   \<and> add_contact [''Alice'', ''0987654321''] (snd (add_contact [''Alice'', ''1234567890''] []))
     = (Inr ''Contact updated.'', [(''Alice'', \<lparr>name = ''Alice'', phones = [''1234567890'', ''0987654321''], birthday = None\<rparr>)])
   \<and> add_contact [''Bob'', ''0987654321''] [(''Bob'', \<lparr>name = ''Bob'', phones = [''1111111111''], birthday = None\<rparr>), (''Eve'', Record_init ''Eve'')]
     = (Inr ''Contact updated.'', [(''Bob'', \<lparr>name = ''Bob'', phones = [''1111111111'', ''0987654321''], birthday = None\<rparr>), (''Eve'', Record_init ''Eve'')])"
proof -
  have ok1: "isdigit ''1234567890'' \<and> length ''1234567890'' = 10"
    and ok2: "isdigit ''0987654321'' \<and> length ''0987654321'' = 10"
    by (simp_all add: isdigit_def isdigit_char_def ascii_digit_def cls_09_def)
  have absent: "find_record ''Alice'' [] = None"
    by (simp add: find_record_def)
  note alice = add_contact_creates_or_appends [of "''1234567890''" "''Alice''" "[]", rule_format, OF ok1]
  have first: "add_contact [''Alice'', ''1234567890''] []
       = (Inr ''Contact added.'', [(''Alice'', \<lparr>name = ''Alice'', phones = [''1234567890''], birthday = None\<rparr>)])"
    using alice absent by simp
  have second: "add_contact [''Alice'', ''0987654321''] (snd (add_contact [''Alice'', ''1234567890''] []))
     = (Inr ''Contact updated.'', [(''Alice'', \<lparr>name = ''Alice'', phones = [''1234567890'', ''0987654321''], birthday = None\<rparr>)])"
    using alice absent ok2 unfolding append_Nil by blast
  have third: "add_contact [''Bob'', ''0987654321''] [(''Bob'', \<lparr>name = ''Bob'', phones = [''1111111111''], birthday = None\<rparr>), (''Eve'', Record_init ''Eve'')]
     = (Inr ''Contact updated.'', [(''Bob'', \<lparr>name = ''Bob'', phones = [''1111111111'', ''0987654321''], birthday = None\<rparr>), (''Eve'', Record_init ''Eve'')])"
    using add_contact_creates_or_appends [of "''0987654321''" "''Bob''"
        "[(''Bob'', \<lparr>name = ''Bob'', phones = [''1111111111''], birthday = None\<rparr>), (''Eve'', Record_init ''Eve'')]"]
      ok2
    by (simp add: find_record_def)
  show ?thesis
    using first second third by simp
qed

section \<open>Editing a phone\<close>

declare edit_phone_from.simps [simp del]

lemma edit_phone_from_absent:
  "\<forall>j. i \<le> j \<and> j < length (phones r) \<longrightarrow> phones r ! j \<noteq> old_phone \<Longrightarrow>
   edit_phone_from i old_phone new_phone r = (Inl (ValueError ''Old phone not found.''), r)"
proof (induction i old_phone new_phone r rule: edit_phone_from.induct)
  case (1 i old_phone new_phone r)
  show ?case
  proof (cases "i < length (phones r)")
    case True
    with "1.prems" have ne: "phones r ! i \<noteq> old_phone" by simp
    have "edit_phone_from (i + 1) old_phone new_phone r = (Inl (ValueError ''Old phone not found.''), r)"
      using "1.IH" [OF True ne] "1.prems" by simp
    then show ?thesis
      using True ne by (subst edit_phone_from.simps) simp
  next
    case False
    then show ?thesis by (subst edit_phone_from.simps) simp
  qed
qed

lemma edit_phone_from_first:
  "i \<le> k \<Longrightarrow> k < length (phones r) \<Longrightarrow> phones r ! k = old_phone \<Longrightarrow>
   \<forall>j. i \<le> j \<and> j < k \<longrightarrow> phones r ! j \<noteq> old_phone \<Longrightarrow>
   edit_phone_from i old_phone new_phone r =
     (case Phone new_phone of
        Inl e \<Rightarrow> (Inl e, r)
      | Inr p \<Rightarrow> (Inr (), r\<lparr>phones := (phones r)[k := p]\<rparr>))"
proof (induction i old_phone new_phone r rule: edit_phone_from.induct)
  case (1 i old_phone new_phone r)
  have lt: "i < length (phones r)"
    using "1.prems" by simp
  show ?case
  proof (cases "i = k")
    case True
    with "1.prems" show ?thesis
      by (subst edit_phone_from.simps) auto
  next
    case False
    with "1.prems" have ik: "i + 1 \<le> k" and ne: "phones r ! i \<noteq> old_phone"
      by simp_all
    have "edit_phone_from (i + 1) old_phone new_phone r =
      (case Phone new_phone of
        Inl e \<Rightarrow> (Inl e, r)
      | Inr p \<Rightarrow> (Inr (), r\<lparr>phones := (phones r)[k := p]\<rparr>))"
      using "1.IH" [OF lt ne ik] "1.prems" by simp
    then show ?thesis
      using lt ne by (subst edit_phone_from.simps) simp
  qed
qed

lemma first_index_less: "x \<in> set xs \<Longrightarrow> first_index x xs < length xs"
  by (induction xs) (auto simp: first_index_def)

lemma first_index_nth: "x \<in> set xs \<Longrightarrow> xs ! first_index x xs = x"
  by (induction xs) (auto simp: first_index_def)

lemma first_index_least: "j < first_index x xs \<Longrightarrow> xs ! j \<noteq> x"
proof (induction xs arbitrary: j)
  case Nil
  then show ?case by (simp add: first_index_def)
next
  case (Cons a xs)
  then show ?case
    by (cases j) (auto simp: first_index_def split: if_splits)
qed

lemma list_update_first_index:
  "x \<in> set xs \<Longrightarrow>
   xs[first_index x xs := v] = takeWhile (\<lambda>y. y \<noteq> x) xs @ v # tl (dropWhile (\<lambda>y. y \<noteq> x) xs)"
  by (induction xs) (auto simp: first_index_def)

text \<open>
  C6: \<^verbatim>\<open>edit_phone(old, new)\<close> on a record without the phone \<open>old\<close> raises
  \<^verbatim>\<open>ValueError("Old phone not found.")\<close> and leaves the record unchanged; with the
  phone present and \<open>new\<close> failing validation it raises the validation error and leaves
  the record unchanged; with the phone present and \<open>new\<close> valid it replaces the first
  phone equal to \<open>old\<close>, in place, by \<open>new\<close>.
\<close>

theorem edit_phone_spec:
  "(old_phone \<notin> set (phones r) \<longrightarrow>
      edit_phone old_phone new_phone r = (Inl (ValueError ''Old phone not found.''), r))
   \<and> (old_phone \<in> set (phones r) \<and> \<not> (isdigit new_phone \<and> length new_phone = 10) \<longrightarrow>
      edit_phone old_phone new_phone r
        = (Inl (ValueError ''Phone number must contain exactly 10 digits.''), r))
   \<and> (old_phone \<in> set (phones r) \<and> isdigit new_phone \<and> length new_phone = 10 \<longrightarrow>
      edit_phone old_phone new_phone r
        = (Inr (), r\<lparr>phones := (phones r)[first_index old_phone (phones r) := new_phone]\<rparr>)
      \<and> phones (snd (edit_phone old_phone new_phone r))
        = takeWhile (\<lambda>p. p \<noteq> old_phone) (phones r) @ new_phone
            # tl (dropWhile (\<lambda>p. p \<noteq> old_phone) (phones r)))"
proof (intro conjI impI)
  assume "old_phone \<notin> set (phones r)"
  then have "\<forall>j. 0 \<le> j \<and> j < length (phones r) \<longrightarrow> phones r ! j \<noteq> old_phone"
    by auto
  from edit_phone_from_absent [OF this]
  show "edit_phone old_phone new_phone r = (Inl (ValueError ''Old phone not found.''), r)"
    by (simp add: edit_phone_def)
next
  assume a: "old_phone \<in> set (phones r) \<and> \<not> (isdigit new_phone \<and> length new_phone = 10)"
  then have mem: "old_phone \<in> set (phones r)" by simp
  from a have bad: "Phone new_phone = Inl (ValueError ''Phone number must contain exactly 10 digits.'')"
    by (simp add: Phone_def)
  show "edit_phone old_phone new_phone r
        = (Inl (ValueError ''Phone number must contain exactly 10 digits.''), r)"
    using edit_phone_from_first [of 0 "first_index old_phone (phones r)" r old_phone new_phone]
      first_index_less [OF mem] first_index_nth [OF mem] first_index_least [of _ old_phone "phones r"]
    by (simp add: edit_phone_def bad)
next
  assume a: "old_phone \<in> set (phones r) \<and> isdigit new_phone \<and> length new_phone = 10"
  then have mem: "old_phone \<in> set (phones r)" by simp
  from a have good: "Phone new_phone = Inr new_phone"
    by (simp add: Phone_def)
  show res: "edit_phone old_phone new_phone r
        = (Inr (), r\<lparr>phones := (phones r)[first_index old_phone (phones r) := new_phone]\<rparr>)"
    using edit_phone_from_first [of 0 "first_index old_phone (phones r)" r old_phone new_phone]
      first_index_less [OF mem] first_index_nth [OF mem] first_index_least [of _ old_phone "phones r"]
    by (simp add: edit_phone_def good)
  have "(phones r)[first_index old_phone (phones r) := new_phone]
      = takeWhile (\<lambda>p. p \<noteq> old_phone) (phones r) @ new_phone
            # tl (dropWhile (\<lambda>p. p \<noteq> old_phone) (phones r))"
    by (rule list_update_first_index [OF mem])
  then show "phones (snd (edit_phone old_phone new_phone r))
        = takeWhile (\<lambda>p. p \<noteq> old_phone) (phones r) @ new_phone
            # tl (dropWhile (\<lambda>p. p \<noteq> old_phone) (phones r))"
    by (simp add: res)
qed

theorem edit_phone_spec_witness:
  "edit_phone ''1111111111'' ''2222222222'' \<lparr>name = ''Ann'', phones = [''1111111111''], birthday = None\<rparr>
     = (Inr (), \<lparr>name = ''Ann'', phones = [''2222222222''], birthday = None\<rparr>)
   \<and> edit_phone ''9999999999'' ''3333333333'' \<lparr>name = ''Ann'', phones = [''2222222222''], birthday = None\<rparr>
     = (Inl (ValueError ''Old phone not found.''), \<lparr>name = ''Ann'', phones = [''2222222222''], birthday = None\<rparr>)
   \<and> edit_phone ''2222222222'' ''33-33'' \<lparr>name = ''Ann'', phones = [''5555555555'', ''2222222222'', ''2222222222''], birthday = None\<rparr>
     = (Inl (ValueError ''Phone number must contain exactly 10 digits.''),
        \<lparr>name = ''Ann'', phones = [''5555555555'', ''2222222222'', ''2222222222''], birthday = None\<rparr>)
   \<and> edit_phone ''2222222222'' ''3333333333'' \<lparr>name = ''Ann'', phones = [''5555555555'', ''2222222222'', ''2222222222''], birthday = None\<rparr>
     = (Inr (), \<lparr>name = ''Ann'', phones = [''5555555555'', ''3333333333'', ''2222222222''], birthday = None\<rparr>)"
  using edit_phone_spec [of "''1111111111''" "\<lparr>name = ''Ann'', phones = [''1111111111''], birthday = None\<rparr>" "''2222222222''"]
    edit_phone_spec [of "''9999999999''" "\<lparr>name = ''Ann'', phones = [''2222222222''], birthday = None\<rparr>" "''3333333333''"]
    edit_phone_spec [of "''2222222222''" "\<lparr>name = ''Ann'', phones = [''5555555555'', ''2222222222'', ''2222222222''], birthday = None\<rparr>" "''33-33''"]
    edit_phone_spec [of "''2222222222''" "\<lparr>name = ''Ann'', phones = [''5555555555'', ''2222222222'', ''2222222222''], birthday = None\<rparr>" "''3333333333''"]
  by (simp add: first_index_def isdigit_def isdigit_char_def ascii_digit_def cls_09_def)

section \<open>What \<^verbatim>\<open>strptime\<close> accepts\<close>

lemma match_seq_Some:
  "match_seq alt s = Some (t, r) \<longleftrightarrow> s = t @ r \<and> alt_matches alt t"
proof (induction alt s arbitrary: t rule: match_seq.induct)
  case (1 s)
  show ?case by (auto simp: alt_matches_def)
next
  case (2 cls rest)
  show ?case by (auto simp: alt_matches_def list_all2_Cons1)
next
  case (3 cls rest c cs)
  show ?case
  proof (cases "c \<in> set cls")
    case False
    then show ?thesis by (auto simp: alt_matches_def list_all2_Cons1)
  next
    case True
    show ?thesis
    proof (cases t)
      case Nil
      then show ?thesis
        using True by (auto simp: alt_matches_def split: option.splits)
    next
      case (Cons c' t')
      then show ?thesis
        using True "3.IH" [OF True, of t']
        by (auto simp: alt_matches_def split: option.splits)
    qed
  qed
qed

lemma in_set_map_filter: "y \<in> set (List.map_filter f xs) \<longleftrightarrow> (\<exists>x\<in>set xs. f x = Some y)"
  by (induction xs) (auto simp: List.map_filter_simps split: option.splits)

lemma in_match_group:
  "(t, r) \<in> set (match_group alts s) \<longleftrightarrow> s = t @ r \<and> (\<exists>alt\<in>set alts. alt_matches alt t)"
  by (auto simp: match_group_def in_set_map_filter match_seq_Some)

lemma lang_dot: "(\<exists>alt\<in>set re_dot. alt_matches alt t) \<longleftrightarrow> t = ''.''"
  by (auto simp: re_dot_def alt_matches_def list_all2_Cons1)

lemma lang_Y: "(\<exists>alt\<in>set re_Y. alt_matches alt ys) \<longleftrightarrow> year_text ys"
  by (auto simp: re_Y_def alt_matches_def list_all2_Cons1 year_text_def ascii_digit_def
      split: list.splits)

lemma ascii_digit_cases:
  "ascii_digit c \<longleftrightarrow>
     c = CHR ''0'' \<or> c = CHR ''1'' \<or> c = CHR ''2'' \<or> c = CHR ''3'' \<or> c = CHR ''4''
     \<or> c = CHR ''5'' \<or> c = CHR ''6'' \<or> c = CHR ''7'' \<or> c = CHR ''8'' \<or> c = CHR ''9''"
  by (auto simp: ascii_digit_def cls_09_def)

lemma digit_val_range: "ascii_digit c \<Longrightarrow> 0 \<le> digit_val c \<and> digit_val c \<le> 9"
  by (auto simp: ascii_digit_cases digit_val_def)

lemma ascii_digit_not_blank: "ascii_digit c \<Longrightarrow> c \<noteq> CHR '' '' \<and> c \<noteq> CHR ''.''"
  by (auto simp: ascii_digit_cases)

lemma cls_19_iff: "c \<in> set cls_19 \<longleftrightarrow> ascii_digit c \<and> 1 \<le> digit_val c"
  by (auto simp: ascii_digit_cases cls_19_def digit_val_def)

lemma py_int_1: "ascii_digit a \<Longrightarrow> py_int [a] = digit_val a"
  by (simp add: py_int_def ascii_digit_not_blank)

lemma py_int_2: "ascii_digit a \<Longrightarrow> py_int [a, b] = 10 * digit_val a + digit_val b"
  by (simp add: py_int_def ascii_digit_not_blank)

lemma py_int_blank: "ascii_digit b \<Longrightarrow> py_int [CHR '' '', b] = digit_val b"
  by (simp add: py_int_def ascii_digit_not_blank)

lemma py_int_4:
  "ascii_digit a \<Longrightarrow>
   py_int [a, b, c, d] = 1000 * digit_val a + 100 * digit_val b + 10 * digit_val c + digit_val d"
  by (simp add: py_int_def ascii_digit_not_blank)

lemma digit_chars:
  "ascii_digit CHR ''0''" "ascii_digit CHR ''1''" "ascii_digit CHR ''2''" "ascii_digit CHR ''3''"
  "digit_val CHR ''0'' = 0" "digit_val CHR ''1'' = 1" "digit_val CHR ''2'' = 2"
  "digit_val CHR ''3'' = 3" "\<not> ascii_digit CHR '' ''"
  by (simp_all add: ascii_digit_cases digit_val_def)

lemma digit_eq_iff:
  "ascii_digit c \<Longrightarrow> (c = CHR ''0'') = (digit_val c = 0)"
  "ascii_digit c \<Longrightarrow> (c = CHR ''1'') = (digit_val c = 1)"
  "ascii_digit c \<Longrightarrow> (c = CHR ''2'') = (digit_val c = 2)"
  "ascii_digit c \<Longrightarrow> (c = CHR ''3'') = (digit_val c = 3)"
  by (auto simp: ascii_digit_cases digit_val_def)

lemmas cls_iffs = cls_19_iff digit_chars digit_eq_iff ascii_digit_def [symmetric]

lemma lang_m:
  "(\<exists>alt\<in>set re_m. alt_matches alt ms) \<longleftrightarrow> month_text ms \<and> 1 \<le> py_int ms \<and> py_int ms \<le> 12"
proof (cases ms)
  case Nil
  then show ?thesis
    by (simp add: re_m_def alt_matches_def month_text_def)
next
  case (Cons a ms1)
  note ms = this
  show ?thesis
  proof (cases ms1)
    case Nil
    show ?thesis
      unfolding ms Nil using digit_val_range [of a]
      by (auto simp: re_m_def alt_matches_def month_text_def cls_iffs py_int_1)
  next
    case (Cons b ms2)
    note ms1 = this
    show ?thesis
    proof (cases ms2)
      case Nil
      show ?thesis
        unfolding ms ms1 Nil using digit_val_range [of a] digit_val_range [of b]
        by (auto simp: re_m_def alt_matches_def month_text_def cls_iffs py_int_2)
    next
      case (Cons c ms3)
      show ?thesis
        unfolding ms ms1 Cons
        by (simp add: re_m_def alt_matches_def month_text_def)
    qed
  qed
qed

lemma lang_d:
  "(\<exists>alt\<in>set re_d. alt_matches alt ds) \<longleftrightarrow> day_text ds \<and> 1 \<le> py_int ds \<and> py_int ds \<le> 31"
proof (cases ds)
  case Nil
  then show ?thesis
    by (simp add: re_d_def alt_matches_def day_text_def)
next
  case (Cons a ds1)
  note ds = this
  show ?thesis
  proof (cases ds1)
    case Nil
    show ?thesis
      unfolding ds Nil using digit_val_range [of a]
      by (auto simp: re_d_def alt_matches_def day_text_def cls_iffs py_int_1)
  next
    case (Cons b ds2)
    note ds1 = this
    show ?thesis
    proof (cases ds2)
      case Nil
      show ?thesis
      proof (cases "a = CHR '' ''")
        case True
        show ?thesis
          unfolding ds ds1 Nil True using digit_val_range [of b]
          by (auto simp: re_d_def alt_matches_def day_text_def cls_iffs py_int_blank)
      next
        case False
        then show ?thesis
          unfolding ds ds1 Nil using digit_val_range [of a] digit_val_range [of b]
          by (auto simp: re_d_def alt_matches_def day_text_def cls_iffs py_int_2)
      qed
    next
      case (Cons c ds3)
      show ?thesis
        unfolding ds ds1 Cons
        by (simp add: re_d_def alt_matches_def day_text_def)
    qed
  qed
qed

lemma day_text_no_dot: "day_text ds \<Longrightarrow> CHR ''.'' \<notin> set ds"
  by (auto simp: day_text_def ascii_digit_cases split: list.splits)

lemma month_text_no_dot: "month_text ms \<Longrightarrow> CHR ''.'' \<notin> set ms"
  by (auto simp: month_text_def ascii_digit_cases split: list.splits)

lemma year_text_length: "year_text ys \<Longrightarrow> length ys = 4"
  by (auto simp: year_text_def split: list.splits)

lemma in_format_regex_match:
  "(d, m, y, r) \<in> set (format_regex_match s) \<longleftrightarrow>
     s = d @ ''.'' @ m @ ''.'' @ y @ r
     \<and> (\<exists>alt\<in>set re_d. alt_matches alt d)
     \<and> (\<exists>alt\<in>set re_m. alt_matches alt m)
     \<and> (\<exists>alt\<in>set re_Y. alt_matches alt y)"
proof -
  have "(d, m, y, r) \<in> set (format_regex_match s) \<longleftrightarrow>
      (\<exists>r1 p1 r2 r3 p2 r4.
         (d, r1) \<in> set (match_group re_d s) \<and> (p1, r2) \<in> set (match_group re_dot r1)
         \<and> (m, r3) \<in> set (match_group re_m r2) \<and> (p2, r4) \<in> set (match_group re_dot r3)
         \<and> (y, r) \<in> set (match_group re_Y r4))"
    unfolding format_regex_match_def by fastforce
  also have "\<dots> \<longleftrightarrow> s = d @ ''.'' @ m @ ''.'' @ y @ r
     \<and> (\<exists>alt\<in>set re_d. alt_matches alt d)
     \<and> (\<exists>alt\<in>set re_m. alt_matches alt m)
     \<and> (\<exists>alt\<in>set re_Y. alt_matches alt y)"
    unfolding in_match_group lang_dot by auto
  finally show ?thesis .
qed

lemma split_at_first:
  "x \<notin> set xs \<Longrightarrow> x \<notin> set xs' \<Longrightarrow> xs @ x # ys = xs' @ x # ys' \<Longrightarrow> xs = xs' \<and> ys = ys'"
proof (induction xs arbitrary: xs')
  case Nil
  then show ?case by (cases xs') auto
next
  case (Cons a xs)
  then show ?case by (cases xs') auto
qed

lemma dmy_unique:
  assumes "d @ ''.'' @ m @ ''.'' @ y @ r = d' @ ''.'' @ m' @ ''.'' @ y' @ r'"
    and "CHR ''.'' \<notin> set d" "CHR ''.'' \<notin> set d'" "CHR ''.'' \<notin> set m" "CHR ''.'' \<notin> set m'"
    and "length y = length y'"
  shows "d = d' \<and> m = m' \<and> y = y' \<and> r = r'"
proof -
  from assms(1) have "d @ CHR ''.'' # (m @ ''.'' @ y @ r) = d' @ CHR ''.'' # (m' @ ''.'' @ y' @ r')"
    by simp
  then have "d = d' \<and> m @ ''.'' @ y @ r = m' @ ''.'' @ y' @ r'"
    by (rule split_at_first [OF assms(2,3)])
  then have d: "d = d'" and 1: "m @ ''.'' @ y @ r = m' @ ''.'' @ y' @ r'"
    by simp_all
  from 1 have "m @ CHR ''.'' # (y @ r) = m' @ CHR ''.'' # (y' @ r')"
    by simp
  then have "m = m' \<and> y @ r = y' @ r'"
    by (rule split_at_first [OF assms(4,5)])
  then have m: "m = m'" and 2: "y @ r = y' @ r'"
    by simp_all
  from 2 assms(6) have "y = y' \<and> r = r'"
    by simp
  with d m show ?thesis by simp
qed

lemma days_in_month_le_31: "1 \<le> m \<Longrightarrow> m \<le> 12 \<Longrightarrow> days_in_month y m \<le> 31"
  using month_cases [of m] by (auto simp: days_in_month_def DAYS_IN_MONTH_def)

lemma strptime_dmY_iff:
  "strptime_dmY s = Inr t \<longleftrightarrow>
     (\<exists>ds ms ys. s = ds @ ''.'' @ ms @ ''.'' @ ys
        \<and> day_text ds \<and> month_text ms \<and> year_text ys
        \<and> check_date_fields (py_int ys) (py_int ms) (py_int ds)
        \<and> t = \<lparr>year = py_int ys, month = py_int ms, day = py_int ds\<rparr>)"
proof
  assume ok: "strptime_dmY s = Inr t"
  then obtain d m y r rest where f: "format_regex_match s = (d, m, y, r) # rest"
    by (cases "format_regex_match s") (auto simp: strptime_dmY_def)
  from ok f have r: "r = []" and nd: "new_date (py_int y) (py_int m) (py_int d) = Inr t"
    by (simp_all add: strptime_dmY_def split: if_splits)
  from f have "(d, m, y, r) \<in> set (format_regex_match s)" by simp
  then have "s = d @ ''.'' @ m @ ''.'' @ y" "day_text d" "month_text m" "year_text y"
    using r by (simp_all add: in_format_regex_match lang_d lang_m lang_Y)
  with nd show "\<exists>ds ms ys. s = ds @ ''.'' @ ms @ ''.'' @ ys
        \<and> day_text ds \<and> month_text ms \<and> year_text ys
        \<and> check_date_fields (py_int ys) (py_int ms) (py_int ds)
        \<and> t = \<lparr>year = py_int ys, month = py_int ms, day = py_int ds\<rparr>"
    by (auto simp: new_date_iff)
next
  assume "\<exists>ds ms ys. s = ds @ ''.'' @ ms @ ''.'' @ ys
        \<and> day_text ds \<and> month_text ms \<and> year_text ys
        \<and> check_date_fields (py_int ys) (py_int ms) (py_int ds)
        \<and> t = \<lparr>year = py_int ys, month = py_int ms, day = py_int ds\<rparr>"
  then obtain ds ms ys where s_eq: "s = ds @ ''.'' @ ms @ ''.'' @ ys"
    and shape: "day_text ds" "month_text ms" "year_text ys"
    and chk: "check_date_fields (py_int ys) (py_int ms) (py_int ds)"
    and t_eq: "t = \<lparr>year = py_int ys, month = py_int ms, day = py_int ds\<rparr>"
    by blast
  from chk have mr: "1 \<le> py_int ms" "py_int ms \<le> 12"
    and dr: "1 \<le> py_int ds" "py_int ds \<le> days_in_month (py_int ys) (py_int ms)"
    by (simp_all add: check_date_fields_def)
  from dr days_in_month_le_31 [OF mr, of "py_int ys"] have d31: "py_int ds \<le> 31" by simp
  have mem: "(ds, ms, ys, []) \<in> set (format_regex_match s)"
    using s_eq shape mr dr d31 by (simp add: in_format_regex_match lang_d lang_m lang_Y)
  then obtain x rest where f: "format_regex_match s = x # rest"
    by (cases "format_regex_match s") auto
  obtain d m y r where x: "x = (d, m, y, r)"
    by (cases x) auto
  from f x have "(d, m, y, r) \<in> set (format_regex_match s)" by simp
  then have s': "s = d @ ''.'' @ m @ ''.'' @ y @ r"
    and shape': "day_text d" "month_text m" "year_text y"
    by (simp_all add: in_format_regex_match lang_d lang_m lang_Y)
  have "d = ds \<and> m = ms \<and> y = ys \<and> r = []"
  proof (rule dmy_unique)
    show "d @ ''.'' @ m @ ''.'' @ y @ r = ds @ ''.'' @ ms @ ''.'' @ ys @ []"
      using s_eq s' by simp
    show "CHR ''.'' \<notin> set d" "CHR ''.'' \<notin> set ds" "CHR ''.'' \<notin> set m" "CHR ''.'' \<notin> set ms"
      using shape shape' by (simp_all add: day_text_no_dot month_text_no_dot)
    show "length y = length ys"
      using shape shape' by (simp add: year_text_length)
  qed
  with f x have "strptime_dmY s = new_date (py_int ys) (py_int ms) (py_int ds)"
    by (simp add: strptime_dmY_def)
  with chk t_eq show "strptime_dmY s = Inr t"
    by (simp add: new_date_iff)
qed

lemma digit_char_props: "ascii_digit (digit_char k) \<and> digit_val (digit_char k) = k mod 10"
proof -
  define i where "i = k mod 10"
  have "0 \<le> i" "i < 10" by (simp_all add: i_def)
  then have "i = 0 \<or> i = 1 \<or> i = 2 \<or> i = 3 \<or> i = 4 \<or> i = 5 \<or> i = 6 \<or> i = 7 \<or> i = 8 \<or> i = 9"
    by arith
  then have "ascii_digit (''0123456789'' ! nat i) \<and> digit_val (''0123456789'' ! nat i) = i"
    by (elim disjE) (simp_all add: ascii_digit_cases digit_val_def)
  then show ?thesis by (simp add: digit_char_def i_def)
qed

lemma fmt2_props:
  assumes "0 \<le> n" "n \<le> 99"
  shows "day_text (fmt2 n)" "month_text (fmt2 n)" "py_int (fmt2 n) = n"
proof -
  show "day_text (fmt2 n)" "month_text (fmt2 n)"
    by (simp_all add: fmt2_def day_text_def month_text_def digit_char_props)
  have "n div 10 mod 10 = n div 10"
    using assms by simp
  then show "py_int (fmt2 n) = n"
    by (simp add: fmt2_def py_int_2 digit_char_props)
qed

lemma fmt4_props:
  assumes "0 \<le> n" "n \<le> 9999"
  shows "year_text (fmt4 n)" "py_int (fmt4 n) = n"
proof -
  show "year_text (fmt4 n)"
    by (simp add: fmt4_def year_text_def digit_char_props)
  have a: "n div 1000 mod 10 = n div 1000"
    using assms by simp
  have m10: "x mod 10 = x - 10 * (x div 10)" for x :: int
    using mult_div_mod_eq [of 10 x] by linarith
  have "n div 100 div 10 = n div (100 * 10)" "n div 10 div 10 = n div (10 * 10)"
    by (simp_all only: zdiv_zmult2_eq)
  then have b: "n div 100 mod 10 = n div 100 - 10 * (n div 1000)"
    and c: "n div 10 mod 10 = n div 10 - 10 * (n div 100)"
    using m10 [of "n div 100"] m10 [of "n div 10"] by simp_all
  have d: "n mod 10 = n - 10 * (n div 10)"
    by (rule m10)
  have "py_int (fmt4 n)
      = 1000 * (n div 1000 mod 10) + 100 * (n div 100 mod 10) + 10 * (n div 10 mod 10) + n mod 10"
    by (simp add: fmt4_def py_int_4 digit_char_props)
  also have "\<dots> = n"
    unfolding a b c d by simp
  finally show "py_int (fmt4 n) = n" .
qed

lemma strptime_strftime:
  assumes "valid_date t"
  shows "strptime_dmY (strftime_dmY t) = Inr t" and "matches_DD_MM_YYYY (strftime_dmY t)"
proof -
  from assms have y: "1 \<le> year t" "year t \<le> 9999" and m: "1 \<le> month t" "month t \<le> 12"
    and d: "1 \<le> day t" "day t \<le> days_in_month (year t) (month t)"
    by (simp_all add: valid_date_def check_date_fields_def MINYEAR_def MAXYEAR_def)
  from d days_in_month_le_31 [OF m, of "year t"] have d31: "day t \<le> 31" by simp
  have dd: "0 \<le> day t" "day t \<le> 99" and mm: "0 \<le> month t" "month t \<le> 99"
    and yy: "0 \<le> year t" "year t \<le> 9999"
    using y m d d31 by simp_all
  have "strftime_dmY t = fmt2 (day t) @ ''.'' @ fmt2 (month t) @ ''.'' @ fmt4 (year t)
      \<and> day_text (fmt2 (day t)) \<and> month_text (fmt2 (month t)) \<and> year_text (fmt4 (year t))
      \<and> check_date_fields (py_int (fmt4 (year t))) (py_int (fmt2 (month t))) (py_int (fmt2 (day t)))
      \<and> t = \<lparr>year = py_int (fmt4 (year t)), month = py_int (fmt2 (month t)),
              day = py_int (fmt2 (day t))\<rparr>"
    using assms by (simp add: strftime_dmY_def fmt2_props [OF dd] fmt2_props [OF mm]
        fmt4_props [OF yy] valid_date_def)
  then show "strptime_dmY (strftime_dmY t) = Inr t"
    unfolding strptime_dmY_iff by blast
  show "matches_DD_MM_YYYY (strftime_dmY t)"
    by (simp add: matches_DD_MM_YYYY_def strftime_dmY_def fmt2_def fmt4_def digit_char_props)
qed

section \<open>Birthday validation\<close>

text \<open>
  C3: \<^verbatim>\<open>Birthday(raw)\<close> is to succeed exactly on the strings of the form DD.MM.YYYY
  (two digits, two digits, four digits) that are a date of the calendar; the comment in
  its constructor and its message name that format. The code departs from it on
  "1.2.2024" and on " 1.2.2024": the \<^verbatim>\<open>%d\<close> and \<^verbatim>\<open>%m\<close> of \<^verbatim>\<open>strptime\<close> also read
  one digit, and \<^verbatim>\<open>%d\<close> a blank and a digit, so both strings are stored as birthdays.
\<close>

theorem Birthday_one_digit_counterexample:
  "Birthday ''1.2.2024'' = Inr ''1.2.2024'' \<and> \<not> matches_DD_MM_YYYY ''1.2.2024''
   \<and> Birthday '' 1.2.2024'' = Inr '' 1.2.2024'' \<and> \<not> matches_DD_MM_YYYY '' 1.2.2024''"
  by (simp add: Birthday_cases strptime_eval matches_DD_MM_YYYY_def ascii_digit_def cls_09_def)

section \<open>The loop of \<^verbatim>\<open>get_upcoming_birthdays\<close>\<close>

lemma toordinal_in_year:
  assumes "date_fields_ok t"
  shows "days_before_year (year t) < toordinal t"
    and "toordinal t \<le> days_before_year (year t + 1)"
proof -
  from assms have m: "1 \<le> month t" "month t \<le> 12"
    and d: "1 \<le> day t" "day t \<le> days_in_month (year t) (month t)"
    by (simp_all add: date_fields_ok_def)
  show "days_before_year (year t) < toordinal t"
    using days_before_month_nonneg [OF m, of "year t"] d by (simp add: toordinal_def ymd2ord_def)
  show "toordinal t \<le> days_before_year (year t + 1)"
    using month_end_le [OF m, of "year t"] d
    by (simp add: toordinal_def ymd2ord_def days_before_year_next)
qed

lemma fromordinal_valid:
  assumes n: "1 \<le> n" "n \<le> MAXORDINAL"
  shows "valid_date (fromordinal n)" and "toordinal (fromordinal n) = n"
proof -
  let ?t = "fromordinal n"
  have ord: "toordinal ?t = n" and ok: "date_fields_ok ?t"
    using ord2ymd_correct [of n] by (simp_all add: fromordinal_def)
  show "toordinal ?t = n" by (rule ord)
  have lo: "1 \<le> year ?t"
  proof (rule ccontr)
    assume "\<not> 1 \<le> year ?t"
    then have "year ?t + 1 \<le> 1" by simp
    then have "days_before_year (year ?t + 1) \<le> days_before_year 1"
      by (rule days_before_year_mono)
    then have "toordinal ?t \<le> 0"
      using toordinal_in_year(2) [OF ok] by (simp add: days_before_year_def)
    with ord n show False by simp
  qed
  have hi: "year ?t \<le> 9999"
  proof (rule ccontr)
    assume "\<not> year ?t \<le> 9999"
    then have "10000 \<le> year ?t" by simp
    then have "days_before_year 10000 \<le> days_before_year (year ?t)"
      by (rule days_before_year_mono)
    then have "3652059 < toordinal ?t"
      using toordinal_in_year(1) [OF ok] by (simp add: days_before_year_def)
    with ord n show False by (simp add: MAXORDINAL_def)
  qed
  show "valid_date ?t"
    using lo hi ok
    by (simp add: valid_date_def check_date_fields_def date_fields_ok_def MINYEAR_def MAXYEAR_def)
qed

lemma congrat_date_shift:
  assumes "valid_date b" and "congrat_date b = Inr c"
  shows "valid_date c"
    and "weekday b = 5 \<Longrightarrow> toordinal c = toordinal b + 2 \<and> weekday c = 0"
    and "weekday b = 6 \<Longrightarrow> toordinal c = toordinal b + 1 \<and> weekday c = 0"
    and "weekday b \<noteq> 5 \<Longrightarrow> weekday b \<noteq> 6 \<Longrightarrow> c = b"
proof -
  note bnd = toordinal_bounds [OF assms(1)]
  have c: "c = (if weekday b = 5 then fromordinal (toordinal b + 2)
          else if weekday b = 6 then fromordinal (toordinal b + 1) else b)"
    using assms(2) by (simp add: congrat_date_total [OF assms(1)])
  have sat: "1 \<le> toordinal b + 2 \<and> toordinal b + 2 \<le> MAXORDINAL" if "weekday b = 5"
    using bnd that saturday_fits [of "toordinal b"] by (simp add: weekday_def MAXORDINAL_def)
  have sun: "1 \<le> toordinal b + 1 \<and> toordinal b + 1 \<le> MAXORDINAL" if "weekday b = 6"
    using bnd that sunday_fits [of "toordinal b"] by (simp add: weekday_def MAXORDINAL_def)
  show "valid_date c"
    using c assms(1) sat sun by (auto simp: fromordinal_valid(1))
  show "toordinal c = toordinal b + 2 \<and> weekday c = 0" if w: "weekday b = 5"
  proof -
    have "toordinal c = toordinal b + 2"
      using c w sat [OF w] by (simp add: fromordinal_valid(2))
    moreover have "(toordinal b + 2 + 6) mod 7 = 0"
      using w unfolding weekday_def by presburger
    ultimately show ?thesis by (simp add: weekday_def)
  qed
  show "toordinal c = toordinal b + 1 \<and> weekday c = 0" if w: "weekday b = 6"
  proof -
    have "toordinal c = toordinal b + 1"
      using c w sun [OF w] by (simp add: fromordinal_valid(2))
    moreover have "(toordinal b + 1 + 6) mod 7 = 0"
      using w unfolding weekday_def by presburger
    ultimately show ?thesis by (simp add: weekday_def)
  qed
  show "c = b" if "weekday b \<noteq> 5" "weekday b \<noteq> 6"
    using c that by simp
qed

lemma upcoming_loop_Inr:
  "upcoming_loop today days rs acc = Inr out \<longleftrightarrow>
     (\<forall>r\<in>set rs. \<exists>x. upcoming_item today days r = Inr x)
     \<and> out = acc @ List.map_filter (item_of today days) rs"
proof (induction rs arbitrary: acc)
  case Nil
  show ?case by (auto simp: List.map_filter_simps)
next
  case (Cons r rs)
  show ?case
  proof (cases "upcoming_item today days r")
    case (Inl e)
    then show ?thesis by simp
  next
    case (Inr x)
    then show ?thesis
      by (cases x) (auto simp: Cons.IH item_of_def List.map_filter_simps)
  qed
qed

lemma get_upcoming_birthdays_Inr:
  "get_upcoming_birthdays today book days_arg = Inr out \<longleftrightarrow>
     (\<forall>r\<in>snd ` set book. \<exists>x. upcoming_item today (window_days days_arg) r = Inr x)
     \<and> out = List.map_filter (item_of today (window_days days_arg)) (map snd book)"
  by (simp add: get_upcoming_birthdays_def upcoming_loop_Inr window_days_def Let_def)

lemma upcoming_item_eq:
  "upcoming_item today days r =
    (case birthday r of
       None \<Rightarrow> Inr None
     | Some v \<Rightarrow>
        (case bday_this_year today v of
           Inl e \<Rightarrow> Inl e
         | Inr b \<Rightarrow>
            if 0 \<le> days_between b today \<and> days_between b today \<le> days
            then Inr (Some (name r, strftime_dmY
                   (if weekday b = 5 then fromordinal (toordinal b + 2)
                    else if weekday b = 6 then fromordinal (toordinal b + 1) else b)))
            else Inr None))"
  by (auto simp: upcoming_item_def Let_def congrat_date_total bday_this_year_valid
      split: option.splits sum.splits)

lemma item_of_eq:
  assumes "birthday r = Some v" "strptime_dmY v = Inr bd" "recurrence_defined today bd"
  shows "upcoming_item today days r =
     Inr (if 0 \<le> days_between (spec_this_year_birthday today bd) today
             \<and> days_between (spec_this_year_birthday today bd) today \<le> days
          then item_of today days r else None)"
    and "item_of today days r \<noteq> None \<longleftrightarrow>
          0 \<le> days_between (spec_this_year_birthday today bd) today
          \<and> days_between (spec_this_year_birthday today bd) today \<le> days"
    and "item_of today days r = Some (n, g) \<Longrightarrow> n = name r"
proof -
  have b: "bday_this_year today v = Inr (spec_this_year_birthday today bd)"
    using assms by (simp add: bday_this_year_iff)
  show "upcoming_item today days r =
     Inr (if 0 \<le> days_between (spec_this_year_birthday today bd) today
             \<and> days_between (spec_this_year_birthday today bd) today \<le> days
          then item_of today days r else None)"
    by (simp add: item_of_def upcoming_item_eq assms(1) b)
  show "item_of today days r \<noteq> None \<longleftrightarrow>
          0 \<le> days_between (spec_this_year_birthday today bd) today
          \<and> days_between (spec_this_year_birthday today bd) today \<le> days"
    by (simp add: item_of_def upcoming_item_eq assms(1) b)
  show "item_of today days r = Some (n, g) \<Longrightarrow> n = name r"
    by (simp add: item_of_def upcoming_item_eq assms(1) b split: if_splits)
qed

lemma item_of_no_birthday: "birthday r = None \<Longrightarrow> item_of today days r = None"
  by (simp add: item_of_def upcoming_item_eq)

lemma item_of_name: "item_of today days r = Some (n, g) \<Longrightarrow> n = name r"
  by (auto simp: item_of_def upcoming_item_eq split: option.splits sum.splits if_splits)

text \<open>
  Where the day and month of every stored birthday exist in the years needed, the call
  returns a list, and a record with a birthday has an item in it if and only if
  \<open>0 \<le> thisYearBirthday - today \<le> days\<close>; a record without a birthday has none; without
  the argument \<open>days\<close> is 7. (The names of the records of a book are distinct.)
\<close>

theorem upcoming_birthdays_window:
  "(distinct (map (\<lambda>(k, r). name r) book)
    \<and> (\<forall>(k, r) \<in> set book. \<forall>v. birthday r = Some v \<longrightarrow>
          (\<exists>bd. strptime_dmY v = Inr bd \<and> recurrence_defined today bd))
    \<longrightarrow> (\<exists>out. get_upcoming_birthdays today book days_arg = Inr out
          \<and> (\<forall>(k, r) \<in> set book.
                (name r \<in> fst ` set out \<longleftrightarrow>
                  (\<exists>v bd. birthday r = Some v \<and> strptime_dmY v = Inr bd
                     \<and> 0 \<le> days_between (spec_this_year_birthday today bd) today
                     \<and> days_between (spec_this_year_birthday today bd) today
                          \<le> window_days days_arg))
                \<and> (birthday r = None \<longrightarrow> name r \<notin> fst ` set out))))
   \<and> window_days None = 7"
proof (intro conjI impI)
  show "window_days None = 7" by (simp add: window_days_def)
next
  assume a: "distinct (map (\<lambda>(k, r). name r) book)
    \<and> (\<forall>(k, r) \<in> set book. \<forall>v. birthday r = Some v \<longrightarrow>
          (\<exists>bd. strptime_dmY v = Inr bd \<and> recurrence_defined today bd))"
  let ?days = "window_days days_arg"
  let ?out = "List.map_filter (item_of today ?days) (map snd book)"
  from a have dist: "distinct (map (\<lambda>(k, r). name r) book)" by simp
  from a have ok: "\<exists>bd. strptime_dmY v = Inr bd \<and> recurrence_defined today bd"
    if "(k, r) \<in> set book" "birthday r = Some v" for k r v
    using that by blast
  have total: "\<exists>x. upcoming_item today ?days r = Inr x" if "r \<in> snd ` set book" for r
  proof (cases "birthday r")
    case None
    then show ?thesis by (simp add: upcoming_item_eq)
  next
    case (Some v)
    from that obtain k where "(k, r) \<in> set book" by auto
    from ok [OF this Some] obtain bd where "strptime_dmY v = Inr bd" "recurrence_defined today bd"
      by blast
    from item_of_eq(1) [OF Some this] show ?thesis by blast
  qed
  then have res: "get_upcoming_birthdays today book days_arg = Inr ?out"
    by (simp add: get_upcoming_birthdays_Inr)
  have inj: "r' = r" if "(k, r) \<in> set book" "(k', r') \<in> set book" "name r' = name r" for k r k' r'
  proof -
    have "inj_on (\<lambda>(k, r). name r) (set book)"
      using dist by (simp add: distinct_map)
    from inj_onD [OF this _ that(2) that(1)] that(3) show ?thesis by simp
  qed
  have mem: "name r \<in> fst ` set ?out \<longleftrightarrow> item_of today ?days r \<noteq> None"
    if r: "(k, r) \<in> set book" for k r
  proof
    assume "name r \<in> fst ` set ?out"
    then obtain g where "(name r, g) \<in> set ?out" by auto
    then obtain e where e: "e \<in> set book" "item_of today ?days (snd e) = Some (name r, g)"
      by (auto simp: in_set_map_filter)
    obtain k' r' where e': "e = (k', r')" by (cases e)
    from e e' have "name r' = name r"
      by (auto dest: item_of_name)
    from inj [OF r _ this] e e' have "r' = r" by simp
    with e e' show "item_of today ?days r \<noteq> None" by simp
  next
    assume "item_of today ?days r \<noteq> None"
    then obtain n g where i: "item_of today ?days r = Some (n, g)" by auto
    then have "n = name r" by (rule item_of_name)
    with i r have "(name r, g) \<in> set ?out"
      by (force simp: in_set_map_filter)
    then show "name r \<in> fst ` set ?out" by force
  qed
  have each: "(name r \<in> fst ` set ?out \<longleftrightarrow>
                  (\<exists>v bd. birthday r = Some v \<and> strptime_dmY v = Inr bd
                     \<and> 0 \<le> days_between (spec_this_year_birthday today bd) today
                     \<and> days_between (spec_this_year_birthday today bd) today \<le> ?days))
                \<and> (birthday r = None \<longrightarrow> name r \<notin> fst ` set ?out)"
    if r: "(k, r) \<in> set book" for k r
  proof (cases "birthday r")
    case None
    then show ?thesis
      by (simp add: mem [OF r] item_of_no_birthday)
  next
    case (Some v)
    from ok [OF r Some] obtain bd where bd: "strptime_dmY v = Inr bd" "recurrence_defined today bd"
      by blast
    show ?thesis
      using item_of_eq(2) [OF Some bd, of ?days] by (simp add: mem [OF r] Some bd)
  qed
  show "\<exists>out. get_upcoming_birthdays today book days_arg = Inr out
          \<and> (\<forall>(k, r) \<in> set book.
                (name r \<in> fst ` set out \<longleftrightarrow>
                  (\<exists>v bd. birthday r = Some v \<and> strptime_dmY v = Inr bd
                     \<and> 0 \<le> days_between (spec_this_year_birthday today bd) today
                     \<and> days_between (spec_this_year_birthday today bd) today
                          \<le> window_days days_arg))
                \<and> (birthday r = None \<longrightarrow> name r \<notin> fst ` set out))"
    using res each by blast
qed

lemmas date_eval = replace_year_def date_less_def days_between_def toordinal_def ymd2ord_def
  days_before_year_def days_before_month_def DAYS_BEFORE_MONTH_def weekday_def date_add_def
  MAXORDINAL_def fromordinal_def ord2ymd_def strftime_dmY_def fmt2_def fmt4_def digit_char_def
  check_date_fields_def spec_this_year_birthday_def recurrence_defined_def is_leap_def
  days_in_month_def DAYS_IN_MONTH_def MINYEAR_def MAXYEAR_def Let_def

lemmas upcoming_eval = get_upcoming_birthdays_def window_days_def upcoming_item_def
  bday_this_year_def congrat_date_def item_of_def

theorem upcoming_birthdays_window_witness:
  "\<exists>out. get_upcoming_birthdays \<lparr>year = 2024, month = 6, day = 10\<rparr>
      [(''Bob'', \<lparr>name = ''Bob'', phones = [], birthday = Some ''15.06.2020''\<rparr>),
       (''Ann'', \<lparr>name = ''Ann'', phones = [], birthday = Some ''01.01.2000''\<rparr>),
       (''Cid'', \<lparr>name = ''Cid'', phones = [''1234567890''], birthday = None\<rparr>),
       (''Dan'', \<lparr>name = ''Dan'', phones = [], birthday = Some ''17.06.1990''\<rparr>),
       (''Fay'', \<lparr>name = ''Fay'', phones = [], birthday = Some ''18.06.1990''\<rparr>)] None = Inr out
    \<and> ''Bob'' \<in> fst ` set out \<and> ''Dan'' \<in> fst ` set out \<and> ''Ann'' \<notin> fst ` set out
    \<and> ''Cid'' \<notin> fst ` set out \<and> ''Fay'' \<notin> fst ` set out"
proof -
  let ?today = "\<lparr>year = 2024, month = 6, day = 10\<rparr>"
  let ?book = "[(''Bob'', \<lparr>name = ''Bob'', phones = [], birthday = Some ''15.06.2020''\<rparr>),
       (''Ann'', \<lparr>name = ''Ann'', phones = [], birthday = Some ''01.01.2000''\<rparr>),
       (''Cid'', \<lparr>name = ''Cid'', phones = [''1234567890''], birthday = None\<rparr>),
       (''Dan'', \<lparr>name = ''Dan'', phones = [], birthday = Some ''17.06.1990''\<rparr>),
       (''Fay'', \<lparr>name = ''Fay'', phones = [], birthday = Some ''18.06.1990''\<rparr>)]"
  have hyp: "distinct (map (\<lambda>(k, r). name r) ?book)
    \<and> (\<forall>(k, r) \<in> set ?book. \<forall>v. birthday r = Some v \<longrightarrow>
          (\<exists>bd. strptime_dmY v = Inr bd \<and> recurrence_defined ?today bd))"
    by (simp add: strptime_eval date_eval)
  from upcoming_birthdays_window [of ?book ?today None, THEN conjunct1, rule_format, OF hyp]
  obtain out where res: "get_upcoming_birthdays ?today ?book None = Inr out"
    and each: "\<forall>(k, r) \<in> set ?book.
                (name r \<in> fst ` set out \<longleftrightarrow>
                  (\<exists>v bd. birthday r = Some v \<and> strptime_dmY v = Inr bd
                     \<and> 0 \<le> days_between (spec_this_year_birthday ?today bd) ?today
                     \<and> days_between (spec_this_year_birthday ?today bd) ?today
                          \<le> window_days None))
                \<and> (birthday r = None \<longrightarrow> name r \<notin> fst ` set out)"
    by blast
  from each have "''Bob'' \<in> fst ` set out \<and> ''Dan'' \<in> fst ` set out \<and> ''Ann'' \<notin> fst ` set out
    \<and> ''Cid'' \<notin> fst ` set out \<and> ''Fay'' \<notin> fst ` set out"
    by (simp add: strptime_eval date_eval window_days_def)
  with res show ?thesis by blast
qed

text \<open>
  C1: for every book and every record of it with a birthday, the record is to be in the
  result exactly when \<open>0 \<le> thisYearBirthday - today \<le> days\<close>. The code departs from it
  on a book that holds a birthday of 29 February when the year of \<open>today\<close> is no leap
  year: \<^verbatim>\<open>replace(year=today.year)\<close> raises for that record, the call ends with the
  exception, and a record whose birthday is 5 days ahead is in no result.
\<close>

theorem upcoming_birthdays_leap_day_counterexample:
  "get_upcoming_birthdays \<lparr>year = 2023, month = 6, day = 10\<rparr>
      [(''Bob'', \<lparr>name = ''Bob'', phones = [], birthday = Some ''15.06.2020''\<rparr>),
       (''Eve'', \<lparr>name = ''Eve'', phones = [], birthday = Some ''29.02.2020''\<rparr>)] None
     = Inl (ValueError ''day is out of range for month'')
   \<and> \<not> includes_name
        (get_upcoming_birthdays \<lparr>year = 2023, month = 6, day = 10\<rparr>
          [(''Bob'', \<lparr>name = ''Bob'', phones = [], birthday = Some ''15.06.2020''\<rparr>),
           (''Eve'', \<lparr>name = ''Eve'', phones = [], birthday = Some ''29.02.2020''\<rparr>)] None)
        ''Bob''
   \<and> strptime_dmY ''15.06.2020'' = Inr \<lparr>year = 2020, month = 6, day = 15\<rparr>
   \<and> days_between
        (spec_this_year_birthday \<lparr>year = 2023, month = 6, day = 10\<rparr>
          \<lparr>year = 2020, month = 6, day = 15\<rparr>)
        \<lparr>year = 2023, month = 6, day = 10\<rparr> = 5
   \<and> window_days None = 7"
  by (simp add: includes_name_def upcoming_eval strptime_eval date_eval)

section \<open>The order of the result\<close>

lemma map_fst_items:
  "map fst (List.map_filter (item_of today days) rs)
     = map name (filter (\<lambda>r. item_of today days r \<noteq> None) rs)"
proof (induction rs)
  case Nil
  show ?case by (simp add: List.map_filter_simps)
next
  case (Cons r rs)
  show ?case
  proof (cases "item_of today days r")
    case None
    with Cons show ?thesis by (simp add: List.map_filter_simps)
  next
    case (Some item)
    obtain n g where "item = (n, g)" by (cases item)
    with Some have "fst item = name r" by (auto dest: item_of_name)
    with Some Cons show ?thesis by (simp add: List.map_filter_simps)
  qed
qed

text \<open>
  C7: the list \<^verbatim>\<open>get_upcoming_birthdays\<close> returns holds the items of the records in
  the order in which the book iterates, which is the order of insertion (\<open>add_record\<close>
  keeps the place of a name the book has and puts a new name last); it is not sorted by
  date.
\<close>

theorem upcoming_birthdays_in_book_order:
  "(\<forall>out. get_upcoming_birthdays today book days_arg = Inr out \<longrightarrow>
      out = List.map_filter (item_of today (window_days days_arg)) (map snd book)
      \<and> map fst out
          = map name (filter (\<lambda>r. item_of today (window_days days_arg) r \<noteq> None) (map snd book)))
   \<and> map fst (add_record record book)
       = (if name record \<in> set (map fst book) then map fst book else map fst book @ [name record])"
  by (auto simp: get_upcoming_birthdays_Inr map_fst_items add_record_def update_keys)

theorem upcoming_birthdays_in_book_order_witness:
  "get_upcoming_birthdays \<lparr>year = 2024, month = 6, day = 10\<rparr>
      [(''Zed'', \<lparr>name = ''Zed'', phones = [], birthday = Some ''14.06.1990''\<rparr>),
       (''Amy'', \<lparr>name = ''Amy'', phones = [], birthday = Some ''11.06.1985''\<rparr>)] None
     = Inr [(''Zed'', ''14.06.2024''), (''Amy'', ''11.06.2024'')]
   \<and> map name (filter (\<lambda>r. item_of \<lparr>year = 2024, month = 6, day = 10\<rparr> (window_days None) r \<noteq> None)
        (map snd [(''Zed'', \<lparr>name = ''Zed'', phones = [], birthday = Some ''14.06.1990''\<rparr>),
                  (''Amy'', \<lparr>name = ''Amy'', phones = [], birthday = Some ''11.06.1985''\<rparr>)]))
     = [''Zed'', ''Amy'']"
proof -
  have res: "get_upcoming_birthdays \<lparr>year = 2024, month = 6, day = 10\<rparr>
      [(''Zed'', \<lparr>name = ''Zed'', phones = [], birthday = Some ''14.06.1990''\<rparr>),
       (''Amy'', \<lparr>name = ''Amy'', phones = [], birthday = Some ''11.06.1985''\<rparr>)] None
     = Inr [(''Zed'', ''14.06.2024''), (''Amy'', ''11.06.2024'')]"
    by (simp add: upcoming_eval strptime_eval date_eval)
  from upcoming_birthdays_in_book_order [THEN conjunct1, rule_format, OF res]
  have "map fst [(''Zed'', ''14.06.2024''), (''Amy'', ''11.06.2024'')]
     = map name (filter (\<lambda>r. item_of \<lparr>year = 2024, month = 6, day = 10\<rparr> (window_days None) r \<noteq> None)
        (map snd [(''Zed'', \<lparr>name = ''Zed'', phones = [], birthday = Some ''14.06.1990''\<rparr>),
                  (''Amy'', \<lparr>name = ''Amy'', phones = [], birthday = Some ''11.06.1985''\<rparr>)]))"
    by (rule conjunct2)
  then have "map name (filter (\<lambda>r. item_of \<lparr>year = 2024, month = 6, day = 10\<rparr> (window_days None) r \<noteq> None)
        (map snd [(''Zed'', \<lparr>name = ''Zed'', phones = [], birthday = Some ''14.06.1990''\<rparr>),
                  (''Amy'', \<lparr>name = ''Amy'', phones = [], birthday = Some ''11.06.1985''\<rparr>)]))
     = [''Zed'', ''Amy'']"
    by (simp only: list.map fst_conv)
  with res show ?thesis by (rule conjI)
qed

section \<open>The greeting date\<close>

text \<open>
  C2: every item of the result comes from a record of the book with a birthday; its
  date is \<open>thisYearBirthday\<close> of that birthday moved 2 days on when that is a Saturday,
  1 day on when it is a Sunday, and left as it is otherwise, written as DD.MM.YYYY (the
  text reads back as that date). With today = 2024-06-10, the record "Bob" with birthday
  "15.06.2020" and 7 days the result is Bob with "17.06.2024".
\<close>

theorem greeting_date_shift:
  "(\<forall>out n g. get_upcoming_birthdays today book days_arg = Inr out \<and> (n, g) \<in> set out \<longrightarrow>
      (\<exists>r v bd b c. r \<in> snd ` set book \<and> name r = n \<and> birthday r = Some v
         \<and> strptime_dmY v = Inr bd \<and> b = spec_this_year_birthday today bd
         \<and> congrat_date b = Inr c
         \<and> (weekday b = 5 \<longrightarrow> toordinal c = toordinal b + 2)
         \<and> (weekday b = 6 \<longrightarrow> toordinal c = toordinal b + 1)
         \<and> (weekday b \<noteq> 5 \<and> weekday b \<noteq> 6 \<longrightarrow> c = b)
         \<and> g = strftime_dmY c \<and> matches_DD_MM_YYYY g \<and> strptime_dmY g = Inr c))
   \<and> get_upcoming_birthdays \<lparr>year = 2024, month = 6, day = 10\<rparr>
        [(''Bob'', \<lparr>name = ''Bob'', phones = [], birthday = Some ''15.06.2020''\<rparr>)] (Some 7)
      = Inr [(''Bob'', ''17.06.2024'')]"
proof (intro conjI allI impI)
  show "get_upcoming_birthdays \<lparr>year = 2024, month = 6, day = 10\<rparr>
        [(''Bob'', \<lparr>name = ''Bob'', phones = [], birthday = Some ''15.06.2020''\<rparr>)] (Some 7)
      = Inr [(''Bob'', ''17.06.2024'')]"
    by (simp add: upcoming_eval strptime_eval date_eval)
next
  fix out n g
  assume a: "get_upcoming_birthdays today book days_arg = Inr out \<and> (n, g) \<in> set out"
  let ?days = "window_days days_arg"
  from a have out: "out = List.map_filter (item_of today ?days) (map snd book)"
    by (simp add: get_upcoming_birthdays_Inr)
  with a obtain r where r: "r \<in> snd ` set book" and item: "item_of today ?days r = Some (n, g)"
    by (auto simp: in_set_map_filter)
  from item have n: "name r = n"
    by (auto dest: item_of_name)
  from item obtain v b where v: "birthday r = Some v" and b: "bday_this_year today v = Inr b"
    and g: "g = strftime_dmY (if weekday b = 5 then fromordinal (toordinal b + 2)
                    else if weekday b = 6 then fromordinal (toordinal b + 1) else b)"
    by (auto simp: item_of_def upcoming_item_eq split: option.splits sum.splits if_splits)
  from b obtain bd where bd: "strptime_dmY v = Inr bd" "b = spec_this_year_birthday today bd"
    by (auto simp: bday_this_year_iff)
  have valid: "valid_date b"
    using b by (rule bday_this_year_valid)
  define c where "c = (if weekday b = 5 then fromordinal (toordinal b + 2)
                    else if weekday b = 6 then fromordinal (toordinal b + 1) else b)"
  have c: "congrat_date b = Inr c"
    by (simp add: congrat_date_total [OF valid] c_def)
  note shift = congrat_date_shift [OF valid c]
  have gc: "g = strftime_dmY c"
    using g by (simp add: c_def)
  have fmt: "matches_DD_MM_YYYY g" "strptime_dmY g = Inr c"
    using strptime_strftime [OF shift(1)] by (simp_all add: gc)
  have "r \<in> snd ` set book \<and> name r = n \<and> birthday r = Some v
         \<and> strptime_dmY v = Inr bd \<and> b = spec_this_year_birthday today bd
         \<and> congrat_date b = Inr c
         \<and> (weekday b = 5 \<longrightarrow> toordinal c = toordinal b + 2)
         \<and> (weekday b = 6 \<longrightarrow> toordinal c = toordinal b + 1)
         \<and> (weekday b \<noteq> 5 \<and> weekday b \<noteq> 6 \<longrightarrow> c = b)
         \<and> g = strftime_dmY c \<and> matches_DD_MM_YYYY g \<and> strptime_dmY g = Inr c"
    using r n v bd c shift(2,3,4) gc fmt by blast
  then show "\<exists>r v bd b c. r \<in> snd ` set book \<and> name r = n \<and> birthday r = Some v
         \<and> strptime_dmY v = Inr bd \<and> b = spec_this_year_birthday today bd
         \<and> congrat_date b = Inr c
         \<and> (weekday b = 5 \<longrightarrow> toordinal c = toordinal b + 2)
         \<and> (weekday b = 6 \<longrightarrow> toordinal c = toordinal b + 1)
         \<and> (weekday b \<noteq> 5 \<and> weekday b \<noteq> 6 \<longrightarrow> c = b)
         \<and> g = strftime_dmY c \<and> matches_DD_MM_YYYY g \<and> strptime_dmY g = Inr c"
    by blast
qed

theorem greeting_date_shift_witness:
  "\<exists>c. congrat_date \<lparr>year = 2024, month = 6, day = 16\<rparr> = Inr c
      \<and> toordinal c = toordinal \<lparr>year = 2024, month = 6, day = 16\<rparr> + 1
      \<and> ''17.06.2024'' = strftime_dmY c \<and> strptime_dmY ''17.06.2024'' = Inr c"
proof -
  let ?today = "\<lparr>year = 2024, month = 6, day = 10\<rparr>"
  let ?book = "[(''Sue'', \<lparr>name = ''Sue'', phones = [], birthday = Some ''16.06.1999''\<rparr>)]"
  have res: "get_upcoming_birthdays ?today ?book None = Inr [(''Sue'', ''17.06.2024'')]
      \<and> (''Sue'', ''17.06.2024'') \<in> set [(''Sue'', ''17.06.2024'')]"
    by (simp add: upcoming_eval strptime_eval date_eval)
  from greeting_date_shift [of ?today ?book None, THEN conjunct1, rule_format, OF res]
  obtain r v bd b c where r: "r \<in> snd ` set ?book" and v: "birthday r = Some v"
    and bd: "strptime_dmY v = Inr bd" and b: "b = spec_this_year_birthday ?today bd"
    and c: "congrat_date b = Inr c"
    and sun: "weekday b = 6 \<longrightarrow> toordinal c = toordinal b + 1"
    and g: "''17.06.2024'' = strftime_dmY c" "strptime_dmY ''17.06.2024'' = Inr c"
    by blast
  from r v have "v = ''16.06.1999''" by simp
  with bd have "bd = \<lparr>year = 1999, month = 6, day = 16\<rparr>"
    by (simp add: strptime_eval)
  with b have b': "b = \<lparr>year = 2024, month = 6, day = 16\<rparr>"
    by (simp add: date_eval)
  have "weekday \<lparr>year = 2024, month = 6, day = 16\<rparr> = 6"
    by (simp add: date_eval)
  with sun b' c g show ?thesis by simp
qed

end
